theory Spec2Isabelle
  imports Main "HOL-Library.Word"
begin

section \<open>The stressor contract shared by the workloads\<close>

text \<open>
  The three workloads of the repository (\<^verbatim>\<open>stress-cap.c\<close>, \<^verbatim>\<open>stress-context.c\<close>,
  \<^verbatim>\<open>stress-watchdog.c\<close>) are embedded as functions over an explicit worker state.
  Everything a workload does to its process that a property can observe is a field of
  that state: the bogo-operation counter of the metrics slot, the run states announced
  with \<^verbatim>\<open>stress_set_proc_state\<close>, the messages printed with \<^verbatim>\<open>pr_fail\<close>, \<^verbatim>\<open>pr_inf\<close> and
  \<^verbatim>\<open>pr_inf_skip\<close>, and the number of times the keep-running predicate was evaluated.
  Whatever the operating system decides (system call results, signals, the value of the
  asynchronous keep-running flag at each reading) is an explicit environment argument.
  Timing (\<^verbatim>\<open>stress_time_now\<close>, \<^verbatim>\<open>duration\<close>, the rate metric) is floating point and is left out.
\<close>

type_synonym u64 = "64 word"
type_synonym u32 = "32 word"

datatype exit_status = EXIT_SUCCESS | EXIT_FAILURE | EXIT_NO_RESOURCE | EXIT_NOT_IMPLEMENTED

datatype stress_state = STRESS_STATE_RUN | STRESS_STATE_DEINIT

datatype pr_level = PR_FAIL | PR_INF | PR_INF_SKIP

type_synonym message = "pr_level \<times> string \<times> string"

text \<open>\<^verbatim>\<open>stress_args_t\<close>: the fields the three workloads read.\<close>

record stress_args =
  name :: string
  max_ops :: u64
  args_instance :: nat
  pid :: int

record worker =
  counter :: u64
  proc_states :: "stress_state list"
  messages :: "message list"
  checks :: nat

text \<open>
  Modelled from the spec: the helpers below are declared in \<^verbatim>\<open>stress-ng.h\<close>, which is not
  among the sources. \<open>keep_stressing\<close> follows section 4.2 (\<^verbatim>\<open>flag == true AND
  (ceiling == 0 OR counter < ceiling)\<close>); the flag is read from the environment
  (\<open>keep_stressing_flag env n\<close> is its value at the evaluation number \<open>n\<close> of the worker),
  and \<open>checked\<close> counts the evaluation. \<open>inc_counter\<close> and \<open>set_counter\<close> write the worker's
  own 64-bit counter, \<open>stress_set_proc_state\<close> announces a run state, the \<open>pr_\<close> functions
  append a message: its level, the stressor's name (the leading \<^verbatim>\<open>%s\<close> of every format)
  and the rest of the format string as the source has it, arguments left unformatted.
\<close>

record sys_env =
  keep_stressing_flag :: "nat \<Rightarrow> bool"

definition keep_running_predicate :: "bool \<Rightarrow> u64 \<Rightarrow> u64 \<Rightarrow> bool" where
  "keep_running_predicate flag ceiling cnt = (flag \<and> (ceiling = 0 \<or> cnt < ceiling))"

definition keep_stressing :: "'e sys_env_scheme \<Rightarrow> stress_args \<Rightarrow> 'a worker_scheme \<Rightarrow> bool" where
  "keep_stressing env args w =
     (keep_stressing_flag env (checks w) \<and> (max_ops args = 0 \<or> counter w < max_ops args))"

definition checked :: "'a worker_scheme \<Rightarrow> 'a worker_scheme" where
  "checked w = w\<lparr>checks := Suc (checks w)\<rparr>"

definition inc_counter :: "'a worker_scheme \<Rightarrow> 'a worker_scheme" where
  "inc_counter w = w\<lparr>counter := counter w + 1\<rparr>"

definition set_counter :: "u64 \<Rightarrow> 'a worker_scheme \<Rightarrow> 'a worker_scheme" where
  "set_counter v w = w\<lparr>counter := v\<rparr>"

definition stress_set_proc_state :: "stress_state \<Rightarrow> 'a worker_scheme \<Rightarrow> 'a worker_scheme" where
  "stress_set_proc_state st w = w\<lparr>proc_states := proc_states w @ [st]\<rparr>"

definition pr_fail :: "stress_args \<Rightarrow> string \<Rightarrow> 'a worker_scheme \<Rightarrow> 'a worker_scheme" where
  "pr_fail args txt w = w\<lparr>messages := messages w @ [(PR_FAIL, name args, txt)]\<rparr>"

definition pr_inf :: "stress_args \<Rightarrow> string \<Rightarrow> 'a worker_scheme \<Rightarrow> 'a worker_scheme" where
  "pr_inf args txt w = w\<lparr>messages := messages w @ [(PR_INF, name args, txt)]\<rparr>"

definition pr_inf_skip :: "stress_args \<Rightarrow> string \<Rightarrow> 'a worker_scheme \<Rightarrow> 'a worker_scheme" where
  "pr_inf_skip args txt w = w\<lparr>messages := messages w @ [(PR_INF_SKIP, name args, txt)]\<rparr>"

section \<open>stress-context.c\<close>

definition STRESS_CONTEXTS :: nat where
  "STRESS_CONTEXTS = 3"

text \<open>
  \<^verbatim>\<open>context_data_t\<close>, reduced to its four canaries: \<open>cu_check0\<close> and \<open>cu_check1\<close> stand
  before and after the saved \<^verbatim>\<open>ucontext_t\<close>, \<open>canary_check0\<close> and \<open>canary_check1\<close> are the
  copies kept behind the stack.
\<close>

record context_data =
  cu_check0 :: u32
  cu_check1 :: u32
  canary_check0 :: u32
  canary_check1 :: u32

text \<open>
  What the system decides during a run of the context stressor: whether \<^verbatim>\<open>mmap\<close> and each
  \<^verbatim>\<open>getcontext\<close> succeed, the random words of \<^verbatim>\<open>stress_mwc32\<close>, whether the first
  \<^verbatim>\<open>swapcontext\<close> out of \<^verbatim>\<open>stress_context\<close> succeeds, whether the n-th \<^verbatim>\<open>swapcontext\<close>
  between micro threads transfers control (its result is discarded by the source, so a
  failed call falls through to the caller's own loop condition), the keep-running flag
  at each reading, and what the run has done to the memory of each context by the time
  the canaries are compared.
\<close>

record context_env = sys_env +
  mmap_ok :: bool
  getcontext_ok :: "nat \<Rightarrow> bool"
  stress_mwc32 :: "nat \<Rightarrow> u32"
  start_ok :: bool
  swap_ok :: "nat \<Rightarrow> bool"
  clobber :: "nat \<Rightarrow> context_data \<Rightarrow> context_data"

text \<open>
  The file's static variables next to the worker state: \<open>context_counter\<close>,
  \<open>stress_max_ops\<close>, the mapped array \<open>contexts\<close> (\<^verbatim>\<open>context\<close> in the source), the micro
  threads that hold a saved context to resume (\<open>started\<close>), the number of
  \<^verbatim>\<open>swapcontext\<close> calls made between micro threads, and the values passed to
  \<^verbatim>\<open>set_counter\<close>.
\<close>

record context_worker = worker +
  context_counter :: u64
  stress_max_ops :: u64
  contexts :: "context_data list"
  started :: "nat list"
  swaps :: nat
  set_counter_calls :: "u64 list"

text \<open>
  \<^verbatim>\<open>stress_thread1\<close>, \<^verbatim>\<open>stress_thread2\<close>, \<^verbatim>\<open>stress_thread3\<close> have one body: count, swap to the
  next context (thread \<open>t\<close> saves into \<open>context[t]\<close> and resumes \<open>context[(t + 1) mod 3]\<close>),
  and, once resumed, evaluate the loop condition. A context entered for the first time
  starts at the top of its \<^verbatim>\<open>do\<close> body; a context entered again resumes behind its own
  \<^verbatim>\<open>swapcontext\<close>, that is at its \<^verbatim>\<open>while\<close> condition. When the condition fails the thread
  swaps to \<^verbatim>\<open>uctx_main\<close> (or returns into it through \<^verbatim>\<open>uc_link\<close>) and the loop is left.
  The first argument is fuel: one unit per execution of a \<^verbatim>\<open>do\<close> body; \<open>None\<close> means
  the loop was still running when the fuel ran out.
\<close>

definition context_loop_condition :: "context_env \<Rightarrow> context_worker \<Rightarrow> bool" where
  "context_loop_condition env g =
     (keep_stressing_flag env (checks g) \<and>
      (\<not> (stress_max_ops g \<noteq> 0) \<or> context_counter g < stress_max_ops g))"

fun stress_threads :: "nat \<Rightarrow> context_env \<Rightarrow> nat \<Rightarrow> context_worker \<Rightarrow> context_worker option" where
  "stress_threads 0 env t g = None"
| "stress_threads (Suc fuel) env t g =
     (let g1 = g\<lparr>context_counter := context_counter g + 1, swaps := Suc (swaps g)\<rparr>;
          t' = (if swap_ok env (swaps g) then (t + 1) mod STRESS_CONTEXTS else t)
      in if t' \<notin> set (started g1)
         then stress_threads fuel env t' (g1\<lparr>started := t' # started g1\<rparr>)
         else if context_loop_condition env g1
              then stress_threads fuel env t' (checked g1)
              else Some (checked g1))"

text \<open>\<^verbatim>\<open>stress_context_init\<close> for \<open>context[i]\<close>: \<open>False\<close> is the source's \<open>-1\<close>.\<close>

definition stress_context_init ::
    "context_env \<Rightarrow> stress_args \<Rightarrow> nat \<Rightarrow> context_worker \<Rightarrow> bool \<times> context_worker" where
  "stress_context_init env args i g =
     (if \<not> getcontext_ok env i
      then (False, pr_fail args ''getcontext failed: %d (%s)''
                     (g\<lparr>contexts := (contexts g)[i := \<lparr>cu_check0 = 0, cu_check1 = 0,
                                                          canary_check0 = 0, canary_check1 = 0\<rparr>]\<rparr>))
      else
        let c0 = stress_mwc32 env (2 * i); c1 = stress_mwc32 env (2 * i + 1)
        in (True, g\<lparr>contexts := (contexts g)[i := \<lparr>cu_check0 = c0, cu_check1 = c1,
                                                     canary_check0 = c0, canary_check1 = c1\<rparr>]\<rparr>))"

fun context_init_loop ::
    "context_env \<Rightarrow> stress_args \<Rightarrow> nat list \<Rightarrow> context_worker \<Rightarrow> bool \<times> context_worker" where
  "context_init_loop env args [] g = (True, g)"
| "context_init_loop env args (i # is) g =
     (case stress_context_init env args i g of
        (False, g') \<Rightarrow> (False, g')
      | (True, g') \<Rightarrow> context_init_loop env args is g')"

text \<open>The comparison of the canaries of one context after the run.\<close>

definition canary_check :: "stress_args \<Rightarrow> context_data \<Rightarrow> context_worker \<Rightarrow> context_worker" where
  "canary_check args d g =
     (let g1 = (if canary_check0 d \<noteq> cu_check0 d
                then pr_fail args ''swapcontext clobbered data before context region'' g else g)
      in if canary_check1 d \<noteq> cu_check1 d
         then pr_fail args ''swapcontext clobbered data after context region'' g1 else g1)"

fun canary_loop :: "stress_args \<Rightarrow> context_data list \<Rightarrow> context_worker \<Rightarrow> context_worker" where
  "canary_loop args [] g = g"
| "canary_loop args (d # ds) g = canary_loop args ds (canary_check args d g)"

definition clobbered :: "context_env \<Rightarrow> context_data list \<Rightarrow> context_data list" where
  "clobbered env cs = map (\<lambda>i. clobber env i (cs ! i)) [0..<length cs]"

text \<open>
  The static variables before the call (zero, as C initializes them), and as
  \<^verbatim>\<open>stress_context\<close> sets them once the mapping has succeeded: the mapping is
  zero-filled, the counter is reset, the ceiling is scaled.
\<close>

definition context_statics :: "worker \<Rightarrow> context_worker" where
  "context_statics w = worker.extend w (context_worker.fields 0 0 [] [] 0 [])"

definition context_setup :: "stress_args \<Rightarrow> worker \<Rightarrow> context_worker" where
  "context_setup args w =
     (context_statics w)
       \<lparr>contexts := replicate STRESS_CONTEXTS
                      \<lparr>cu_check0 = 0, cu_check1 = 0, canary_check0 = 0, canary_check1 = 0\<rparr>,
        context_counter := 0, stress_max_ops := max_ops args * 1000\<rparr>"

definition context_finish :: "context_env \<Rightarrow> stress_args \<Rightarrow> context_worker \<Rightarrow> exit_status \<times> context_worker" where
  "context_finish env args g =
     (let g1 = set_counter (context_counter g div 1000)
                 (g\<lparr>set_counter_calls := set_counter_calls g @ [context_counter g div 1000]\<rparr>);
          g2 = canary_loop args (clobbered env (contexts g1)) g1;
          g3 = stress_set_proc_state STRESS_STATE_DEINIT g2
      in (EXIT_SUCCESS, g3))"

text \<open>
  \<^verbatim>\<open>stress_context\<close>. The label \<^verbatim>\<open>fail\<close> only unmaps the buffers and returns \<open>rc\<close>, which
  is \<^verbatim>\<open>EXIT_FAILURE\<close> until the line before the label.
\<close>

definition stress_context ::
    "nat \<Rightarrow> context_env \<Rightarrow> stress_args \<Rightarrow> worker \<Rightarrow> (exit_status \<times> context_worker) option" where
  "stress_context fuel env args w =
     (if \<not> mmap_ok env
      then Some (EXIT_NO_RESOURCE,
                 pr_inf args ''failed to allocate %d x %zd byte context buffers, skipping stressor''
                   (context_statics w))
      else
        case context_init_loop env args [0..<STRESS_CONTEXTS] (context_setup args w) of
          (False, g1) \<Rightarrow> Some (EXIT_FAILURE, g1)
        | (True, g1) \<Rightarrow>
            let g2 = stress_set_proc_state STRESS_STATE_RUN g1 in
            if \<not> start_ok env
            then Some (EXIT_FAILURE, pr_fail args ''swapcontext failed: %d (%s)'' g2)
            else
              (case stress_threads fuel env 0 (g2\<lparr>started := [0]\<rparr>) of
                 None \<Rightarrow> None
               | Some g3 \<Rightarrow> Some (context_finish env args g3)))"

section \<open>stress-cap.c\<close>

definition ESRCH :: int where
  "ESRCH = 3"

text \<open>
  The results of the two checked calls of one \<^verbatim>\<open>stress_capgetset_pid\<close> (the first
  \<^verbatim>\<open>capget\<close> and, when \<open>do_set\<close>, the first \<^verbatim>\<open>capset\<close>), each with the \<^verbatim>\<open>errno\<close> it leaves,
  and of the last \<^verbatim>\<open>capget\<close>, whose result the function returns. The calls in between
  are made for their effect on the kernel only (\<^verbatim>\<open>VOID_RET\<close>).
\<close>

record capgetset_results =
  capget_ret :: int
  capget_errno :: int
  capset_ret :: int
  capset_errno :: int
  last_capget_ret :: int

record cap_env = sys_env +
  capgetset :: "nat \<Rightarrow> capgetset_results"
  getppid :: int

text \<open>\<open>probes\<close>: the calls of \<^verbatim>\<open>stress_capgetset_pid\<close> so far, as (pid, do_set, exists).\<close>

record cap_worker = worker +
  probes :: "(int \<times> bool \<times> bool) list"

definition cap_failed :: "int \<Rightarrow> int \<Rightarrow> bool \<Rightarrow> bool" where
  "cap_failed ret errno exists' =
     (ret < 0 \<and> ((errno = ESRCH \<and> exists') \<or> errno \<noteq> ESRCH))"

definition stress_capgetset_pid ::
    "cap_env \<Rightarrow> stress_args \<Rightarrow> int \<Rightarrow> bool \<Rightarrow> bool \<Rightarrow> cap_worker \<Rightarrow> int \<times> cap_worker" where
  "stress_capgetset_pid env args p do_set exists' w =
     (let r = capgetset env (length (probes w));
          w1 = (if cap_failed (capget_ret r) (capget_errno r) exists'
                then pr_fail args ''capget on pid %jd failed: errno=%d (%s)'' w else w);
          w2 = (if do_set \<and> cap_failed (capset_ret r) (capset_errno r) exists'
                then pr_fail args ''capget on pid %jd failed: errno=%d (%s)'' w1 else w1)
      in (last_capget_ret r, inc_counter (w2\<lparr>probes := probes w2 @ [(p, do_set, exists')]\<rparr>)))"

text \<open>
  A directory entry of \<^verbatim>\<open>/proc\<close> is probed when its name starts with a digit and
  \<^verbatim>\<open>sscanf\<close> reads a number from it; the number is cast to the 32-bit \<^verbatim>\<open>pid_t\<close>.
  \<^verbatim>\<open>sscanf\<close> is only called on a name whose first character is a digit: it reads the
  leading digits into an \<^verbatim>\<open>intmax_t\<close>, and a number beyond \<^verbatim>\<open>INTMAX_MAX\<close> is stored as
  \<^verbatim>\<open>INTMAX_MAX\<close>.
\<close>

definition INTMAX_MAX :: int where
  "INTMAX_MAX = 2 ^ 63 - 1"

definition isdigit :: "char \<Rightarrow> bool" where
  "isdigit c = (c \<in> set ''0123456789'')"

definition sscanf_intmax :: "string \<Rightarrow> int option" where
  "sscanf_intmax s =
     (case takeWhile isdigit s of
        [] \<Rightarrow> None
      | ds \<Rightarrow> Some (min INTMAX_MAX (foldl (\<lambda>a c. 10 * a + (of_char c - 48)) 0 ds)))"

definition pid_t :: "int \<Rightarrow> int" where
  "pid_t p = sint (word_of_int p :: u32)"

fun cap_readdir_loop :: "cap_env \<Rightarrow> stress_args \<Rightarrow> string list \<Rightarrow> cap_worker \<Rightarrow> cap_worker" where
  "cap_readdir_loop env args [] w = w"
| "cap_readdir_loop env args (d # ds) w =
     (if \<not> (case d of [] \<Rightarrow> False | c # _ \<Rightarrow> isdigit c)
      then cap_readdir_loop env args ds w
      else
        case sscanf_intmax d of
          None \<Rightarrow> cap_readdir_loop env args ds w
        | Some p \<Rightarrow>
            (let w1 = snd (stress_capgetset_pid env args (pid_t p) False False w)
             in if \<not> keep_stressing env args w1 then checked w1
                else cap_readdir_loop env args ds (checked w1)))"

text \<open>
  One pass through the \<^verbatim>\<open>do\<close> body of \<^verbatim>\<open>stress_cap\<close>, with the \<^verbatim>\<open>while\<close> condition that
  follows it. The argument \<open>dir\<close> is what \<^verbatim>\<open>opendir\<close> and \<^verbatim>\<open>readdir\<close> deliver in this pass:
  \<open>None\<close> when \<^verbatim>\<open>opendir\<close> fails, the entries' names otherwise. The result is \<open>True\<close> when
  the loop goes round again; a \<^verbatim>\<open>break\<close> leaves it without evaluating the \<^verbatim>\<open>while\<close>
  condition.
\<close>

definition cap_iteration ::
    "cap_env \<Rightarrow> stress_args \<Rightarrow> string list option \<Rightarrow> cap_worker \<Rightarrow> bool \<times> cap_worker" where
  "cap_iteration env args dir w =
     (let w1 = snd (stress_capgetset_pid env args 1 False True w) in
      if \<not> keep_stressing env args w1 then (False, checked w1)
      else
        let w2 = snd (stress_capgetset_pid env args (pid args) True True (checked w1)) in
        if \<not> keep_stressing env args w2 then (False, checked w2)
        else
          let w3 = snd (stress_capgetset_pid env args (getppid env) False False (checked w2)) in
          if \<not> keep_stressing env args w3 then (False, checked w3)
          else
            let w4 = (case dir of
                        None \<Rightarrow> checked w3
                      | Some ds \<Rightarrow> cap_readdir_loop env args ds (checked w3))
            in (keep_stressing env args w4, checked w4))"

text \<open>
  The loop, over the directory listings of the passes to come. \<open>None\<close>: the listings
  ran out while the loop was still running.
\<close>

fun cap_loop ::
    "cap_env \<Rightarrow> stress_args \<Rightarrow> string list option list \<Rightarrow> cap_worker \<Rightarrow> cap_worker option" where
  "cap_loop env args [] w = None"
| "cap_loop env args (dir # dirs) w =
     (case cap_iteration env args dir w of
        (True, w') \<Rightarrow> cap_loop env args dirs w'
      | (False, w') \<Rightarrow> Some w')"

definition stress_cap ::
    "cap_env \<Rightarrow> stress_args \<Rightarrow> string list option list \<Rightarrow> worker \<Rightarrow> (exit_status \<times> cap_worker) option" where
  "stress_cap env args dirs w =
     (case cap_loop env args dirs
             (stress_set_proc_state STRESS_STATE_RUN (worker.extend w (cap_worker.fields [])))
      of
        None \<Rightarrow> None
      | Some w' \<Rightarrow> Some (EXIT_SUCCESS, stress_set_proc_state STRESS_STATE_DEINIT w'))"

section \<open>stress-watchdog.c\<close>

datatype wdioc =
    WDIOC_KEEPALIVE | WDIOC_GETTIMEOUT | WDIOC_GETPRETIMEOUT | WDIOC_GETTIMELEFT
  | WDIOC_GETSUPPORT | WDIOC_GETSTATUS | WDIOC_GETBOOTSTATUS

text \<open>
  The system calls the workload makes, in order: \<open>Sys_open r\<close> with the result of
  \<^verbatim>\<open>open\<close>, \<open>Sys_write d r\<close> the magic close written to descriptor \<open>d\<close> with the result
  of \<^verbatim>\<open>write\<close>, \<open>Sys_close d\<close>, and so on.
\<close>

datatype syscall =
    Sys_open int | Sys_write int int | Sys_ioctl int wdioc | Sys_close int
  | Sys_nanosleep | Sys_sched_yield

datatype access_result = ACCESS_OK | ACCESS_ENOENT | ACCESS_OTHER_ERRNO

text \<open>
  What happens in one pass of the loop of \<^verbatim>\<open>stress_watchdog\<close>, once the keep-running
  predicate has let it start:
  \<^item> \<open>Open_fails\<close>: \<^verbatim>\<open>open\<close> returns \<open>-1\<close> (the device is held by another worker);
  \<^item> \<open>Open_ok d ok\<close>: \<^verbatim>\<open>open\<close> returns the descriptor \<open>d\<close> and the pass runs to its
    \<^verbatim>\<open>close\<close>, which succeeds when \<open>ok\<close>;
  \<^item> a signal of the handled set is delivered: before \<^verbatim>\<open>open\<close> has assigned \<open>fd\<close>, in
    the \<^verbatim>\<open>nanosleep\<close> behind a failed \<^verbatim>\<open>open\<close>, right behind a successful \<^verbatim>\<open>open\<close>, or
    between \<^verbatim>\<open>close(fd)\<close> and \<^verbatim>\<open>fd = -1\<close>. The number \<open>k\<close> says how many more signals
    are delivered while the code behind \<^verbatim>\<open>sigsetjmp\<close> is cleaning up (each behind its
    \<^verbatim>\<open>close\<close>, before the \<^verbatim>\<open>return\<close>).
  Signals are followed from the first pass of the loop on.
\<close>

datatype watchdog_event =
    Open_fails
  | Open_ok nat bool
  | Signal_before_open nat
  | Signal_in_nanosleep nat
  | Signal_while_open nat nat
  | Signal_after_close nat nat

record watchdog_env = sys_env +
  sighandler_results :: "bool list"
  access_result :: access_result
  write_result :: "nat \<Rightarrow> int"

text \<open>
  The static \<open>fd\<close> next to the worker state, the system calls made so far, and whether
  the handler has called \<^verbatim>\<open>keep_stressing_set_flag(false)\<close>.
\<close>

record watchdog_worker = worker +
  fd :: int
  syscalls :: "syscall list"
  flag_cleared :: bool

definition sys :: "syscall \<Rightarrow> watchdog_worker \<Rightarrow> watchdog_worker" where
  "sys c w = w\<lparr>syscalls := syscalls w @ [c]\<rparr>"

definition stress_watchdog_magic_close :: "watchdog_env \<Rightarrow> watchdog_worker \<Rightarrow> watchdog_worker" where
  "stress_watchdog_magic_close env w =
     (if fd w \<ge> 0 then sys (Sys_write (fd w) (write_result env (length (syscalls w)))) w else w)"

text \<open>
  The handler never returns: it ends in \<^verbatim>\<open>siglongjmp(jmp_env, 1)\<close>, and the result is
  the value \<^verbatim>\<open>sigsetjmp\<close> then returns together with the state at the jump.
\<close>

datatype control = Siglongjmp int

definition stress_watchdog_handler ::
    "watchdog_env \<Rightarrow> int \<Rightarrow> watchdog_worker \<Rightarrow> control \<times> watchdog_worker" where
  "stress_watchdog_handler env signum w =
     (Siglongjmp 1, (stress_watchdog_magic_close env w)\<lparr>flag_cleared := True\<rparr>)"

text \<open>
  The code behind \<^verbatim>\<open>sigsetjmp\<close> when it returns non-zero, up to its \<^verbatim>\<open>return
  EXIT_SUCCESS\<close>.
\<close>

definition watchdog_interrupted :: "watchdog_env \<Rightarrow> watchdog_worker \<Rightarrow> watchdog_worker" where
  "watchdog_interrupted env w =
     (if fd w \<ge> 0 then sys (Sys_close (fd w)) (stress_watchdog_magic_close env w) else w)"

text \<open>\<open>n\<close> deliveries in a row, each followed by the clean-up behind \<^verbatim>\<open>sigsetjmp\<close>.\<close>

fun signal_deliveries :: "watchdog_env \<Rightarrow> nat \<Rightarrow> watchdog_worker \<Rightarrow> watchdog_worker" where
  "signal_deliveries env 0 w = w"
| "signal_deliveries env (Suc n) w =
     signal_deliveries env n (watchdog_interrupted env (snd (stress_watchdog_handler env 0 w)))"

definition watchdog_ioctls :: "wdioc list" where
  "watchdog_ioctls =
     [WDIOC_KEEPALIVE, WDIOC_GETTIMEOUT, WDIOC_GETPRETIMEOUT, WDIOC_GETTIMELEFT,
      WDIOC_GETSUPPORT, WDIOC_GETSTATUS, WDIOC_GETBOOTSTATUS, WDIOC_GETBOOTSTATUS]"

definition watchdog_opened :: "watchdog_env \<Rightarrow> nat \<Rightarrow> watchdog_worker \<Rightarrow> watchdog_worker" where
  "watchdog_opened env d w =
     (let w1 = stress_watchdog_magic_close env (sys (Sys_open (int d)) (w\<lparr>fd := int d\<rparr>));
          w2 = foldl (\<lambda>v c. sys (Sys_ioctl (fd v) c) v) w1 watchdog_ioctls;
          w3 = stress_watchdog_magic_close env w2
      in sys (Sys_close (fd w3)) w3)"

definition watchdog_busy :: "watchdog_worker \<Rightarrow> watchdog_worker" where
  "watchdog_busy w = sys Sys_nanosleep (sys (Sys_open (- 1)) (w\<lparr>fd := - 1\<rparr>))"

text \<open>
  How a pass ends: the loop goes on (\<^verbatim>\<open>continue\<close>, or the end of the body), it is left
  with \<^verbatim>\<open>break\<close>, or a signal has thrown the worker to the code behind \<^verbatim>\<open>sigsetjmp\<close>,
  which returns at once.
\<close>

datatype pass_end = Next | Break exit_status | Jumped

fun watchdog_pass ::
    "watchdog_env \<Rightarrow> stress_args \<Rightarrow> watchdog_event \<Rightarrow> watchdog_worker \<Rightarrow> pass_end \<times> watchdog_worker" where
  "watchdog_pass env args Open_fails w = (Next, watchdog_busy w)"
| "watchdog_pass env args (Open_ok d ok) w =
     (let w1 = (watchdog_opened env d w)\<lparr>fd := - 1\<rparr>
      in if \<not> ok then (Break EXIT_FAILURE, pr_fail args ''cannot close %s, errno=%d (%s)'' w1)
         else (Next, inc_counter (sys Sys_sched_yield w1)))"
| "watchdog_pass env args (Signal_before_open k) w = (Jumped, signal_deliveries env (Suc k) w)"
| "watchdog_pass env args (Signal_in_nanosleep k) w =
     (Jumped, signal_deliveries env (Suc k) (watchdog_busy w))"
| "watchdog_pass env args (Signal_while_open d k) w =
     (Jumped, signal_deliveries env (Suc k) (sys (Sys_open (int d)) (w\<lparr>fd := int d\<rparr>)))"
| "watchdog_pass env args (Signal_after_close d k) w =
     (Jumped, signal_deliveries env (Suc k) (watchdog_opened env d w))"

text \<open>
  The \<^verbatim>\<open>while (keep_stressing(args))\<close> loop and what follows it. \<open>None\<close>: the events ran
  out while the loop was still running.
\<close>

fun watchdog_loop ::
    "watchdog_env \<Rightarrow> stress_args \<Rightarrow> watchdog_event list \<Rightarrow> watchdog_worker \<Rightarrow>
     (exit_status \<times> watchdog_worker) option" where
  "watchdog_loop env args [] w =
     (if keep_stressing env args w then None
      else Some (EXIT_SUCCESS, stress_set_proc_state STRESS_STATE_DEINIT (checked w)))"
| "watchdog_loop env args (e # es) w =
     (if keep_stressing env args w
      then
        case watchdog_pass env args e (checked w) of
          (Next, w') \<Rightarrow> watchdog_loop env args es w'
        | (Break rc, w') \<Rightarrow> Some (rc, stress_set_proc_state STRESS_STATE_DEINIT w')
        | (Jumped, w') \<Rightarrow> Some (EXIT_SUCCESS, w')
      else Some (EXIT_SUCCESS, stress_set_proc_state STRESS_STATE_DEINIT (checked w)))"

definition stress_watchdog ::
    "watchdog_env \<Rightarrow> stress_args \<Rightarrow> watchdog_event list \<Rightarrow> worker \<Rightarrow>
     (exit_status \<times> watchdog_worker) option" where
  "stress_watchdog env args evs w =
     (let g = worker.extend w (watchdog_worker.fields (- 1) [] False) in
      if \<not> list_all (\<lambda>ok. ok) (sighandler_results env) then Some (EXIT_FAILURE, g)
      else if access_result env = ACCESS_ENOENT
      then Some (EXIT_SUCCESS,
                 if args_instance args = 0
                 then pr_inf_skip args ''%s does not exist, skipping test'' g else g)
      else if access_result env \<noteq> ACCESS_OK
      then Some (EXIT_SUCCESS,
                 if args_instance args = 0
                 then pr_inf_skip args ''cannot access %s, errno=%d (%s), skipping test'' g else g)
      else watchdog_loop env args evs (stress_set_proc_state STRESS_STATE_RUN (g\<lparr>fd := 0\<rparr>)))"

section \<open>The registered descriptors\<close>

datatype stressor_func =
    Call_stress_cap | Call_stress_context | Call_stress_watchdog | Call_stress_unimplemented

datatype stress_class = CLASS_CPU | CLASS_MEMORY | CLASS_VM | CLASS_OS | CLASS_PATHOLOGICAL

datatype verify_mode = VERIFY_NONE | VERIFY_OPTIONAL | VERIFY_ALWAYS

text \<open>
  \<^verbatim>\<open>stressor_info_t\<close>. The class is a bit set, written as the set of its flags; a field
  the initializer leaves out is zero (\<open>VERIFY_NONE\<close>, or \<open>None\<close> for the \<^verbatim>\<open>NULL\<close> string).
\<close>

record stressor_info =
  stressor :: stressor_func
  info_class :: "stress_class set"
  verify :: verify_mode
  info_help :: "(string \<times> string) list"
  unimplemented_reason :: "string option"

definition cap_help :: "(string \<times> string) list" where
  "cap_help =
     [(''cap N'', ''start N workers exercising capget''),
      (''cap-ops N'', ''stop cap workers after N bogo capget operations'')]"

definition context_help :: "(string \<times> string) list" where
  "context_help =
     [(''context N'', ''start N workers exercising user context''),
      (''context-ops N'', ''stop context workers after N bogo operations'')]"

definition watchdog_help :: "(string \<times> string) list" where
  "watchdog_help =
     [(''watchdog N'', ''start N workers that exercise /dev/watchdog''),
      (''watchdog-ops N'', ''stop after N bogo watchdog operations'')]"

text \<open>Each descriptor as a function of the build-time feature macros that select it.\<close>

definition stress_cap_info :: "bool \<Rightarrow> bool \<Rightarrow> stressor_info" where
  "stress_cap_info HAVE_SYS_CAPABILITY_H LINUX_CAPABILITY_U32S_3 =
     (if HAVE_SYS_CAPABILITY_H \<and> LINUX_CAPABILITY_U32S_3
      then \<lparr>stressor = Call_stress_cap, info_class = {CLASS_OS}, verify = VERIFY_ALWAYS,
            info_help = cap_help, unimplemented_reason = None\<rparr>
      else \<lparr>stressor = Call_stress_unimplemented, info_class = {CLASS_OS}, verify = VERIFY_NONE,
            info_help = cap_help, unimplemented_reason = Some ''built without sys/capability.h''\<rparr>)"

definition stress_context_info :: "bool \<Rightarrow> bool \<Rightarrow> stressor_info" where
  "stress_context_info HAVE_SWAPCONTEXT HAVE_UCONTEXT_H =
     (if HAVE_SWAPCONTEXT \<and> HAVE_UCONTEXT_H
      then \<lparr>stressor = Call_stress_context, info_class = {CLASS_MEMORY, CLASS_CPU},
            verify = VERIFY_ALWAYS, info_help = context_help, unimplemented_reason = None\<rparr>
      else \<lparr>stressor = Call_stress_unimplemented, info_class = {CLASS_MEMORY, CLASS_CPU},
            verify = VERIFY_NONE, info_help = context_help,
            unimplemented_reason = Some ''built without ucontext.h''\<rparr>)"

definition stress_watchdog_info :: "bool \<Rightarrow> stressor_info" where
  "stress_watchdog_info HAVE_LINUX_WATCHDOG_H =
     (if HAVE_LINUX_WATCHDOG_H
      then \<lparr>stressor = Call_stress_watchdog,
            info_class = {CLASS_VM, CLASS_OS, CLASS_PATHOLOGICAL}, verify = VERIFY_NONE,
            info_help = watchdog_help, unimplemented_reason = None\<rparr>
      else \<lparr>stressor = Call_stress_unimplemented,
            info_class = {CLASS_VM, CLASS_OS, CLASS_PATHOLOGICAL}, verify = VERIFY_NONE,
            info_help = watchdog_help,
            unimplemented_reason = Some ''built without linux/watchdog.h''\<rparr>)"

text \<open>
  Modelled from the spec: \<^verbatim>\<open>stress_unimplemented\<close> is defined outside the sources. By
  section 4.1 it is the stub workload that returns \<^verbatim>\<open>NOT_IMPLEMENTED\<close> at once; it
  touches nothing of the worker. The reason shown to the operator is the descriptor's
  \<open>unimplemented_reason\<close>.
\<close>

definition stress_unimplemented :: "stress_args \<Rightarrow> worker \<Rightarrow> exit_status \<times> worker" where
  "stress_unimplemented args w = (EXIT_NOT_IMPLEMENTED, w)"

text \<open>The result and the reason the engine gets from running a descriptor's stub.\<close>

definition run_stub :: "stressor_info \<Rightarrow> stress_args \<Rightarrow> worker \<Rightarrow> (exit_status \<times> string) option" where
  "run_stub info args w =
     (case (stressor info, unimplemented_reason info) of
        (Call_stress_unimplemented, Some reason) \<Rightarrow> Some (fst (stress_unimplemented args w), reason)
      | _ \<Rightarrow> None)"


section \<open>Notions used by the properties\<close>

subsection \<open>The context stressor\<close>

text \<open>
  The set-up of \<^verbatim>\<open>stress_context\<close> succeeds when the mapping, the three \<^verbatim>\<open>getcontext\<close>
  calls and the first \<^verbatim>\<open>swapcontext\<close> do; \<open>loop_entry\<close> is then the state in which
  \<^verbatim>\<open>stress_thread1\<close> starts.
\<close>

definition setup_succeeds :: "context_env \<Rightarrow> bool" where
  "setup_succeeds env =
     (mmap_ok env \<and> list_all (getcontext_ok env) [0..<STRESS_CONTEXTS] \<and> start_ok env)"

definition loop_entry :: "context_env \<Rightarrow> stress_args \<Rightarrow> worker \<Rightarrow> context_worker" where
  "loop_entry env args w =
     (stress_set_proc_state STRESS_STATE_RUN
        (snd (context_init_loop env args [0..<STRESS_CONTEXTS] (context_setup args w))))
     \<lparr>started := [0]\<rparr>"

text \<open>The two halves of a \<^verbatim>\<open>do\<close> body: counting, and the choice of the thread that runs next.\<close>

definition thread_count :: "context_worker \<Rightarrow> context_worker" where
  "thread_count g = g\<lparr>context_counter := context_counter g + 1, swaps := Suc (swaps g)\<rparr>"

definition next_thread :: "context_env \<Rightarrow> nat \<Rightarrow> context_worker \<Rightarrow> nat" where
  "next_thread env t g = (if swap_ok env (swaps g) then (t + 1) mod STRESS_CONTEXTS else t)"

text \<open>
  The invariant of the loop under a ceiling: every thread that has not started yet may
  still count once without looking at the ceiling.
\<close>

definition started_ok :: "context_worker \<Rightarrow> bool" where
  "started_ok g = (distinct (started g) \<and> set (started g) \<subseteq> {..<3})"

definition threads_inv :: "context_worker \<Rightarrow> bool" where
  "threads_inv g =
     (started_ok g \<and> stress_max_ops g \<noteq> 0 \<and>
      unat (stress_max_ops g) + 2 < 2 ^ 64 \<and>
      unat (context_counter g) + (3 - length (started g)) \<le> unat (stress_max_ops g) + 1)"

subsection \<open>The capability stressor\<close>

definition cap_entry :: "worker \<Rightarrow> cap_worker" where
  "cap_entry w = stress_set_proc_state STRESS_STATE_RUN (worker.extend w (cap_worker.fields []))"

text \<open>
  Two quantities the loop keeps: the counter less the number of probes, and the number
  of evaluations of the predicate less the number of probes.
\<close>

definition cap_base :: "cap_worker \<Rightarrow> u64" where
  "cap_base w = counter w - of_nat (length (probes w))"

definition cap_slack :: "cap_worker \<Rightarrow> int" where
  "cap_slack w = int (checks w) - int (length (probes w))"

text \<open>
  The number of true readings among the first \<open>n\<close> readings of the flag, and that number
  at the evaluations made so far less the number of probes.
\<close>

definition flag_trues :: "'e sys_env_scheme \<Rightarrow> nat \<Rightarrow> nat" where
  "flag_trues env n = length (filter (keep_stressing_flag env) [0..<n])"

definition cap_credit :: "cap_env \<Rightarrow> cap_worker \<Rightarrow> int" where
  "cap_credit env w = int (flag_trues env (checks w)) - int (length (probes w))"

subsection \<open>The watchdog stressor\<close>

definition watchdog_entry :: "worker \<Rightarrow> watchdog_worker" where
  "watchdog_entry w =
     stress_set_proc_state STRESS_STATE_RUN
       ((worker.extend w (watchdog_worker.fields (- 1) [] False))\<lparr>fd := 0\<rparr>)"

fun is_signal :: "watchdog_event \<Rightarrow> bool" where
  "is_signal Open_fails = False"
| "is_signal (Open_ok d ok) = False"
| "is_signal (Signal_before_open k) = True"
| "is_signal (Signal_in_nanosleep k) = True"
| "is_signal (Signal_while_open d k) = True"
| "is_signal (Signal_after_close d k) = True"

subsection \<open>Concrete runs\<close>

text \<open>
  A worker as the engine hands it to a workload, arguments with a given name and
  ceiling, and for each workload an environment in which every call succeeds and the
  flag stays true.
\<close>

definition fresh_worker :: worker where
  "fresh_worker = \<lparr>counter = 0, proc_states = [], messages = [], checks = 0\<rparr>"

definition example_args :: "string \<Rightarrow> u64 \<Rightarrow> stress_args" where
  "example_args nm n = \<lparr>name = nm, max_ops = n, args_instance = 0, pid = 4242\<rparr>"

definition quiet_context_env :: context_env where
  "quiet_context_env =
     \<lparr>keep_stressing_flag = (\<lambda>_. True), mmap_ok = True, getcontext_ok = (\<lambda>_. True),
      stress_mwc32 = (\<lambda>n. of_nat n + 17), start_ok = True, swap_ok = (\<lambda>_. True),
      clobber = (\<lambda>_ d. d)\<rparr>"

definition quiet_cap_env :: cap_env where
  "quiet_cap_env =
     \<lparr>keep_stressing_flag = (\<lambda>_. True),
      capgetset = (\<lambda>_. \<lparr>capget_ret = 0, capget_errno = 0, capset_ret = 0, capset_errno = 0,
                         last_capget_ret = - 1\<rparr>),
      getppid = 1\<rparr>"

definition quiet_watchdog_env :: watchdog_env where
  "quiet_watchdog_env =
     \<lparr>keep_stressing_flag = (\<lambda>_. True), sighandler_results = replicate 10 True,
      access_result = ACCESS_OK, write_result = (\<lambda>_. 1)\<rparr>"

text \<open>A watchdog run in which the flag is cleared before its third evaluation.\<close>

definition stopping_watchdog_env :: watchdog_env where
  "stopping_watchdog_env = quiet_watchdog_env\<lparr>keep_stressing_flag := (\<lambda>n. n < 2)\<rparr>"

text \<open>The same flag for the other two workloads.\<close>

definition stopping_context_env :: context_env where
  "stopping_context_env = quiet_context_env\<lparr>keep_stressing_flag := (\<lambda>n. n < 2)\<rparr>"

definition stopping_cap_env :: cap_env where
  "stopping_cap_env = quiet_cap_env\<lparr>keep_stressing_flag := (\<lambda>n. n < 2)\<rparr>"

text \<open>A run in which the word in front of the first saved context is overwritten.\<close>

definition clobbering_context_env :: context_env where
  "clobbering_context_env =
     quiet_context_env\<lparr>clobber := (\<lambda>i d. if i = 0 then d\<lparr>cu_check0 := cu_check0 d + 1\<rparr> else d)\<rparr>"

text \<open>A host on which every checked \<^verbatim>\<open>capget\<close> and \<^verbatim>\<open>capset\<close> fails with \<^verbatim>\<open>EPERM\<close>.\<close>

definition failing_cap_env :: cap_env where
  "failing_cap_env =
     quiet_cap_env\<lparr>capgetset := (\<lambda>_. \<lparr>capget_ret = - 1, capget_errno = 1, capset_ret = - 1,
                                        capset_errno = 1, last_capget_ret = - 1\<rparr>)\<rparr>"


section \<open>Auxiliary facts\<close>

subsection \<open>Words and lists\<close>

lemma upt_contexts: "[0..<STRESS_CONTEXTS] = [0, 1, 2]"
  by (simp add: STRESS_CONTEXTS_def numeral_3_eq_3)

lemma unat_inc_le: "unat ((x::u64) + 1) \<le> Suc (unat x)"
  by (simp add: unat_word_ariths)

lemma unat_inc_bounded: "unat (x::u64) + 1 < 2 ^ 64 \<Longrightarrow> unat (x + 1) = Suc (unat x)"
  by (simp add: unat_word_ariths)

lemma unat_inc_less: "(x::u64) < m \<Longrightarrow> unat (x + 1) = Suc (unat x)"
proof -
  assume "x < m"
  then have "unat x < unat m" by (simp add: word_less_nat_alt)
  moreover have "unat m < 2 ^ 64" using unsigned_less [of m, where 'a = nat] by simp
  ultimately show ?thesis by (simp add: unat_word_ariths)
qed

lemma not_below_ceiling:
  "unat (c::u64) \<le> unat m \<Longrightarrow> \<not> c < m \<Longrightarrow> c = m"
  by (simp add: word_less_nat_alt word_unat_eq_iff)

lemma scaled_ceiling_room: "unat ((c::u64) * 1000) + 8 \<le> 2 ^ 64"
proof -
  have "(8::nat) dvd unat c * 1000" by simp
  moreover have "(8::nat) dvd 2 ^ 64" by simp
  ultimately have "8 dvd (unat c * 1000) mod 2 ^ 64" by (rule dvd_mod)
  then have d: "8 dvd unat (c * 1000)" by (simp add: unat_word_ariths)
  have "unat (c * 1000) < 2 ^ 64" using unsigned_less [of "c * 1000", where 'a = nat] by simp
  with d show ?thesis by (elim dvdE) simp
qed

lemma scaled_exact:
  assumes "unat (c::u64) * 1000 < 2 ^ 64" "unat (c * 1000) \<le> unat (x::u64)"
    "unat x \<le> unat (c * 1000) + 2"
  shows "x div 1000 = c"
proof -
  have m: "unat (c * 1000) = unat c * 1000"
    using assms(1) by (simp add: unat_word_ariths)
  have "unat (x div 1000) = unat x div 1000" by (simp add: unat_div)
  also have "\<dots> = unat c" using assms(2,3) m by simp
  finally show ?thesis by (simp add: word_unat_eq_iff)
qed

lemma started_length:
  assumes "distinct xs" "set xs \<subseteq> {..<3::nat}"
  shows "length xs \<le> 3"
proof -
  have "card (set xs) \<le> card {..<3::nat}"
    using assms(2) by (intro card_mono) auto
  then show ?thesis using assms(1) by (simp add: distinct_card)
qed

lemma started_fresh:
  assumes "distinct xs" "set xs \<subseteq> {..<3::nat}" "t < 3" "t \<notin> set xs"
  shows "length xs < 3"
proof -
  have "length (t # xs) \<le> 3"
    using assms by (intro started_length) auto
  then show ?thesis by simp
qed

lemma checked_fields:
  "counter (checked w) = counter w"
  "checks (checked w) = Suc (checks w)"
  "proc_states (checked w) = proc_states w"
  "messages (checked w) = messages w"
  by (simp_all add: checked_def)

subsection \<open>The loop of the micro threads\<close>

lemma threads_inv_room: "threads_inv g \<Longrightarrow> unat (stress_max_ops g) + 2 < 2 ^ 64"
  by (simp add: threads_inv_def)

lemma threads_inv_bound:
  "threads_inv g \<Longrightarrow>
   unat (context_counter g) + (3 - length (started g)) \<le> unat (stress_max_ops g) + 1"
  by (simp add: threads_inv_def)

lemma stress_threads_Suc:
  "stress_threads (Suc fuel) env t g =
     (if next_thread env t g \<notin> set (started g)
      then stress_threads fuel env (next_thread env t g)
             ((thread_count g)\<lparr>started := next_thread env t g # started g\<rparr>)
      else if context_loop_condition env (thread_count g)
           then stress_threads fuel env (next_thread env t g) (checked (thread_count g))
           else Some (checked (thread_count g)))"
  by (simp add: Let_def thread_count_def next_thread_def)

lemma next_thread_less: "t < 3 \<Longrightarrow> next_thread env t g < 3"
  by (simp add: next_thread_def STRESS_CONTEXTS_def)

lemma threads_inv_fresh:
  assumes "threads_inv g" "t' < 3" "t' \<notin> set (started g)"
  shows "threads_inv ((thread_count g)\<lparr>started := t' # started g\<rparr>)"
proof -
  have "distinct (started g)" "set (started g) \<subseteq> {..<3}"
    using assms(1) unfolding threads_inv_def started_ok_def by blast+
  then have len: "length (started g) < 3"
    using assms(2,3) by (rule started_fresh)
  have "unat (context_counter g) + 1 < 2 ^ 64"
    using threads_inv_room [OF assms(1)] threads_inv_bound [OF assms(1)] len by linarith
  then have "unat (context_counter g + 1) = Suc (unat (context_counter g))"
    by (rule unat_inc_bounded)
  then have "unat (context_counter g + 1) + (3 - Suc (length (started g)))
      \<le> unat (stress_max_ops g) + 1"
    using threads_inv_bound [OF assms(1)] len by linarith
  then show ?thesis
    using assms by (simp add: threads_inv_def started_ok_def thread_count_def)
qed

lemma threads_inv_counted:
  assumes "threads_inv g"
  shows "unat (context_counter (thread_count g)) = Suc (unat (context_counter g))"
proof -
  have "length (started g) \<le> 3"
    using assms unfolding threads_inv_def started_ok_def by (blast intro: started_length)
  then have "unat (context_counter g) + 1 < 2 ^ 64"
    using threads_inv_room [OF assms] threads_inv_bound [OF assms] by linarith
  then show ?thesis by (simp add: thread_count_def unat_inc_bounded)
qed

lemma threads_inv_again:
  assumes "threads_inv g" "started g \<noteq> []" "context_loop_condition env (thread_count g)"
  shows "threads_inv (checked (thread_count g))"
proof -
  have "context_counter (thread_count g) < stress_max_ops g"
    using assms(1,3) by (simp add: context_loop_condition_def threads_inv_def thread_count_def)
  then have "unat (context_counter (thread_count g)) < unat (stress_max_ops g)"
    by (simp add: word_less_nat_alt)
  moreover have "3 - length (started g) \<le> 2" using assms(2) by (cases "started g") simp_all
  ultimately have "unat (context_counter (thread_count g)) + (3 - length (started g))
      \<le> unat (stress_max_ops g) + 1" by linarith
  then show ?thesis
    using assms(1) by (simp add: threads_inv_def started_ok_def thread_count_def checked_def)
qed

lemma threads_inv_exit:
  assumes "threads_inv g"
  shows "unat (context_counter (checked (thread_count g))) \<le> unat (stress_max_ops g) + 2"
  using threads_inv_bound [OF assms] threads_inv_counted [OF assms] by (simp add: checked_def)

lemma stress_threads_upper:
  "stress_threads fuel env t g = Some g' \<Longrightarrow> threads_inv g \<Longrightarrow> t < 3 \<Longrightarrow>
   unat (context_counter g') \<le> unat (stress_max_ops g) + 2 \<and> stress_max_ops g' = stress_max_ops g"
proof (induction fuel arbitrary: t g)
  case 0
  then show ?case by simp
next
  case (Suc fuel)
  let ?t = "next_thread env t g"
  have lt: "?t < 3" using Suc.prems(3) by (rule next_thread_less)
  show ?case
  proof (cases "?t \<in> set (started g)")
    case False
    then have "stress_threads fuel env ?t ((thread_count g)\<lparr>started := ?t # started g\<rparr>) = Some g'"
      using Suc.prems(1) by (simp only: stress_threads_Suc if_True simp_thms)
    from Suc.IH [OF this threads_inv_fresh [OF Suc.prems(2) lt False] lt]
    show ?thesis by (simp add: thread_count_def)
  next
    case True
    then have ne: "started g \<noteq> []" by auto
    show ?thesis
    proof (cases "context_loop_condition env (thread_count g)")
      case c: True
      then have "stress_threads fuel env ?t (checked (thread_count g)) = Some g'"
        using Suc.prems(1) True by (simp only: stress_threads_Suc if_True if_False simp_thms)
      from Suc.IH [OF this threads_inv_again [OF Suc.prems(2) ne c] lt]
      show ?thesis by (simp add: thread_count_def checked_def)
    next
      case c: False
      then have "g' = checked (thread_count g)"
        using Suc.prems(1) True by (simp only: stress_threads_Suc if_True if_False simp_thms option.inject)
      then show ?thesis
        using threads_inv_exit [OF Suc.prems(2)] by (simp add: thread_count_def checked_def)
    qed
  qed
qed

lemma stress_threads_lower:
  "stress_threads fuel env t g = Some g' \<Longrightarrow> \<forall>n. keep_stressing_flag env n \<Longrightarrow>
   stress_max_ops g \<noteq> 0 \<Longrightarrow> stress_max_ops g \<le> context_counter g'"
proof (induction fuel arbitrary: t g)
  case 0
  then show ?case by simp
next
  case (Suc fuel)
  let ?t = "next_thread env t g"
  show ?case
  proof (cases "?t \<in> set (started g)")
    case False
    then have "stress_threads fuel env ?t ((thread_count g)\<lparr>started := ?t # started g\<rparr>) = Some g'"
      using Suc.prems(1) by (simp only: stress_threads_Suc if_True simp_thms)
    from Suc.IH [OF this Suc.prems(2)] Suc.prems(3)
    show ?thesis by (simp add: thread_count_def)
  next
    case True
    show ?thesis
    proof (cases "context_loop_condition env (thread_count g)")
      case c: True
      then have "stress_threads fuel env ?t (checked (thread_count g)) = Some g'"
        using Suc.prems(1) True by (simp only: stress_threads_Suc if_True if_False simp_thms)
      from Suc.IH [OF this Suc.prems(2)] Suc.prems(3)
      show ?thesis by (simp add: thread_count_def checked_def)
    next
      case c: False
      then have "g' = checked (thread_count g)"
        using Suc.prems(1) True by (simp only: stress_threads_Suc if_True if_False simp_thms option.inject)
      then show ?thesis
        using c Suc.prems(2,3)
        by (simp add: context_loop_condition_def thread_count_def checked_def not_less)
    qed
  qed
qed

lemma stress_threads_returns:
  "threads_inv g \<Longrightarrow> t < 3 \<Longrightarrow>
   unat (stress_max_ops g) + 2 \<le> fuel + unat (context_counter g) \<Longrightarrow>
   \<exists>g'. stress_threads fuel env t g = Some g'"
proof (induction fuel arbitrary: t g)
  case 0
  have "length (started g) \<le> 3"
    using 0(1) unfolding threads_inv_def started_ok_def by (blast intro: started_length)
  then show ?case
    using threads_inv_bound [OF 0(1)] 0(3) by linarith
next
  case (Suc fuel)
  let ?t = "next_thread env t g"
  have lt: "?t < 3" using Suc.prems(2) by (rule next_thread_less)
  have cnt: "unat (context_counter (thread_count g)) = Suc (unat (context_counter g))"
    using Suc.prems(1) by (rule threads_inv_counted)
  show ?case
  proof (cases "?t \<in> set (started g)")
    case False
    let ?g = "(thread_count g)\<lparr>started := ?t # started g\<rparr>"
    have "unat (stress_max_ops ?g) + 2 \<le> fuel + unat (context_counter ?g)"
      using Suc.prems(3) cnt by (simp add: thread_count_def)
    from Suc.IH [OF threads_inv_fresh [OF Suc.prems(1) lt False] lt this]
    show ?thesis using False by (simp only: stress_threads_Suc if_True simp_thms)
  next
    case True
    then have ne: "started g \<noteq> []" by auto
    show ?thesis
    proof (cases "context_loop_condition env (thread_count g)")
      case c: True
      let ?g = "checked (thread_count g)"
      have "unat (stress_max_ops ?g) + 2 \<le> fuel + unat (context_counter ?g)"
        using Suc.prems(3) cnt by (simp add: thread_count_def checked_def)
      from Suc.IH [OF threads_inv_again [OF Suc.prems(1) ne c] lt this]
      show ?thesis using True c by (simp only: stress_threads_Suc if_True if_False simp_thms)
    next
      case c: False
      then have "stress_threads (Suc fuel) env t g = Some (checked (thread_count g))"
        using True by (simp only: stress_threads_Suc if_True if_False simp_thms)
      then show ?thesis by blast
    qed
  qed
qed

lemma stress_threads_worker:
  "stress_threads fuel env t g = Some g' \<Longrightarrow>
   counter g' = counter g \<and> proc_states g' = proc_states g \<and> messages g' = messages g \<and>
   contexts g' = contexts g \<and> set_counter_calls g' = set_counter_calls g \<and>
   stress_max_ops g' = stress_max_ops g"
proof (induction fuel arbitrary: t g)
  case 0
  then show ?case by simp
next
  case (Suc fuel)
  let ?t = "next_thread env t g"
  show ?case
  proof (cases "?t \<in> set (started g)")
    case False
    then have "stress_threads fuel env ?t ((thread_count g)\<lparr>started := ?t # started g\<rparr>) = Some g'"
      using Suc.prems(1) by (simp only: stress_threads_Suc if_True simp_thms)
    from Suc.IH [OF this] show ?thesis by (simp add: thread_count_def)
  next
    case True
    show ?thesis
    proof (cases "context_loop_condition env (thread_count g)")
      case c: True
      then have "stress_threads fuel env ?t (checked (thread_count g)) = Some g'"
        using Suc.prems(1) True by (simp only: stress_threads_Suc if_True if_False simp_thms)
      from Suc.IH [OF this] show ?thesis by (simp add: thread_count_def checked_def)
    next
      case c: False
      then have "g' = checked (thread_count g)"
        using Suc.prems(1) True by (simp only: stress_threads_Suc if_True if_False simp_thms option.inject)
      then show ?thesis by (simp add: thread_count_def checked_def)
    qed
  qed
qed

lemma stress_threads_checks:
  "stress_threads fuel env t g = Some g' \<Longrightarrow> started_ok g \<Longrightarrow> t < 3 \<Longrightarrow>
   unat (context_counter g) + 1 \<le> checks g + length (started g) \<Longrightarrow>
   unat (context_counter g') \<le> checks g' + 2 \<and> 0 < checks g'"
proof (induction fuel arbitrary: t g)
  case 0
  then show ?case by simp
next
  case (Suc fuel)
  let ?t = "next_thread env t g"
  have lt: "?t < 3" using Suc.prems(3) by (rule next_thread_less)
  have cnt: "unat (context_counter (thread_count g)) \<le> Suc (unat (context_counter g))"
    by (simp add: thread_count_def unat_inc_le)
  have len: "length (started g) \<le> 3"
    using Suc.prems(2) unfolding started_ok_def by (blast intro: started_length)
  show ?case
  proof (cases "?t \<in> set (started g)")
    case False
    let ?g = "(thread_count g)\<lparr>started := ?t # started g\<rparr>"
    have run: "stress_threads fuel env ?t ?g = Some g'"
      using Suc.prems(1) False by (simp only: stress_threads_Suc if_True simp_thms)
    have ok: "started_ok ?g"
      using Suc.prems(2) False lt by (simp add: started_ok_def thread_count_def)
    have "unat (context_counter ?g) + 1 \<le> checks ?g + length (started ?g)"
      using cnt Suc.prems(4) by (simp add: thread_count_def)
    from Suc.IH [OF run ok lt this] show ?thesis .
  next
    case True
    show ?thesis
    proof (cases "context_loop_condition env (thread_count g)")
      case c: True
      let ?g = "checked (thread_count g)"
      have run: "stress_threads fuel env ?t ?g = Some g'"
        using Suc.prems(1) True c by (simp only: stress_threads_Suc if_True if_False simp_thms)
      have ok: "started_ok ?g"
        using Suc.prems(2) by (simp add: started_ok_def thread_count_def checked_def)
      have "unat (context_counter ?g) + 1 \<le> checks ?g + length (started ?g)"
        using cnt Suc.prems(4) by (simp add: thread_count_def checked_def)
      from Suc.IH [OF run ok lt this] show ?thesis .
    next
      case c: False
      then have "g' = checked (thread_count g)"
        using Suc.prems(1) True by (simp only: stress_threads_Suc if_True if_False simp_thms option.inject)
      then show ?thesis
        using cnt Suc.prems(4) len by (simp add: thread_count_def checked_def)
    qed
  qed
qed

lemma stress_threads_unbounded:
  "\<forall>n. keep_stressing_flag env n \<Longrightarrow> stress_max_ops g = 0 \<Longrightarrow> stress_threads fuel env t g = None"
proof (induction fuel arbitrary: t g)
  case 0
  then show ?case by simp
next
  case (Suc fuel)
  have c: "context_loop_condition env (thread_count g)"
    using Suc.prems by (simp add: context_loop_condition_def thread_count_def)
  have "stress_threads fuel env (next_thread env t g)
          ((thread_count g)\<lparr>started := next_thread env t g # started g\<rparr>) = None"
    using Suc.prems by (intro Suc.IH) (simp_all add: thread_count_def)
  moreover have "stress_threads fuel env (next_thread env t g) (checked (thread_count g)) = None"
    using Suc.prems by (intro Suc.IH) (simp_all add: thread_count_def checked_def)
  ultimately show ?case using c by (simp add: stress_threads_Suc del: stress_threads.simps)
qed

subsection \<open>Around the loop of the context stressor\<close>

lemma context_init_loop_frame:
  "context_init_loop env args is g = (ok, g') \<Longrightarrow>
   counter g' = counter g \<and> proc_states g' = proc_states g \<and> checks g' = checks g \<and>
   context_counter g' = context_counter g \<and> stress_max_ops g' = stress_max_ops g \<and>
   started g' = started g \<and> swaps g' = swaps g \<and> set_counter_calls g' = set_counter_calls g \<and>
   (ok \<longrightarrow> messages g' = messages g)"
proof (induction "is" arbitrary: g)
  case Nil
  then show ?case by simp
next
  case (Cons i "is")
  show ?case
  proof (cases "getcontext_ok env i")
    case False
    then show ?thesis
      using Cons.prems by (auto simp: stress_context_init_def pr_fail_def)
  next
    case True
    then obtain g1 where g1: "stress_context_init env args i g = (True, g1)"
      and fr: "counter g1 = counter g" "proc_states g1 = proc_states g" "checks g1 = checks g"
        "context_counter g1 = context_counter g" "stress_max_ops g1 = stress_max_ops g"
        "started g1 = started g" "swaps g1 = swaps g" "set_counter_calls g1 = set_counter_calls g"
        "messages g1 = messages g"
      by (simp add: stress_context_init_def Let_def)
    then have "context_init_loop env args is g1 = (ok, g')"
      using Cons.prems by simp
    from Cons.IH [OF this] fr show ?thesis by simp
  qed
qed

lemma context_init_loop_ok:
  "list_all (getcontext_ok env) is \<Longrightarrow> fst (context_init_loop env args is g)"
  by (induction "is" arbitrary: g) (simp_all add: stress_context_init_def Let_def)

lemma context_statics_fields:
  "counter (context_statics w) = counter w"
  "proc_states (context_statics w) = proc_states w"
  "messages (context_statics w) = messages w"
  "checks (context_statics w) = checks w"
  by (simp_all add: context_statics_def worker.defs context_worker.defs)

lemma context_setup_fields:
  "counter (context_setup args w) = counter w"
  "proc_states (context_setup args w) = proc_states w"
  "messages (context_setup args w) = messages w"
  "checks (context_setup args w) = checks w"
  "context_counter (context_setup args w) = 0"
  "stress_max_ops (context_setup args w) = max_ops args * 1000"
  "set_counter_calls (context_setup args w) = []"
  by (simp_all add: context_setup_def context_statics_def worker.defs context_worker.defs)

lemma loop_entry_fields:
  "counter (loop_entry env args w) = counter w"
  "proc_states (loop_entry env args w) = proc_states w @ [STRESS_STATE_RUN]"
  "checks (loop_entry env args w) = checks w"
  "context_counter (loop_entry env args w) = 0"
  "stress_max_ops (loop_entry env args w) = max_ops args * 1000"
  "started (loop_entry env args w) = [0]"
  "set_counter_calls (loop_entry env args w) = []"
proof -
  obtain ok g' where r: "context_init_loop env args [0..<STRESS_CONTEXTS] (context_setup args w) = (ok, g')"
    by (cases "context_init_loop env args [0..<STRESS_CONTEXTS] (context_setup args w)")
  from context_init_loop_frame [OF r]
  show "counter (loop_entry env args w) = counter w"
    "proc_states (loop_entry env args w) = proc_states w @ [STRESS_STATE_RUN]"
    "checks (loop_entry env args w) = checks w"
    "context_counter (loop_entry env args w) = 0"
    "stress_max_ops (loop_entry env args w) = max_ops args * 1000"
    "started (loop_entry env args w) = [0]"
    "set_counter_calls (loop_entry env args w) = []"
    by (simp_all add: loop_entry_def r stress_set_proc_state_def context_setup_fields)
qed

lemma loop_entry_messages:
  "list_all (getcontext_ok env) [0..<STRESS_CONTEXTS] \<Longrightarrow> messages (loop_entry env args w) = messages w"
proof -
  assume a: "list_all (getcontext_ok env) [0..<STRESS_CONTEXTS]"
  obtain ok g' where r: "context_init_loop env args [0..<STRESS_CONTEXTS] (context_setup args w) = (ok, g')"
    by (cases "context_init_loop env args [0..<STRESS_CONTEXTS] (context_setup args w)")
  have "ok" using context_init_loop_ok [OF a, of args "context_setup args w"] r by simp
  with context_init_loop_frame [OF r]
  show ?thesis by (simp add: loop_entry_def r stress_set_proc_state_def context_setup_fields)
qed

lemma stress_context_loop:
  "setup_succeeds env \<Longrightarrow>
   stress_context fuel env args w =
     map_option (context_finish env args) (stress_threads fuel env 0 (loop_entry env args w))"
proof -
  assume a: "setup_succeeds env"
  obtain ok g' where r: "context_init_loop env args [0..<STRESS_CONTEXTS] (context_setup args w) = (ok, g')"
    by (cases "context_init_loop env args [0..<STRESS_CONTEXTS] (context_setup args w)")
  have "ok" using context_init_loop_ok [of env "[0..<STRESS_CONTEXTS]" args "context_setup args w"] r a
    by (simp add: setup_succeeds_def)
  then show ?thesis
    using a r by (simp add: stress_context_def setup_succeeds_def loop_entry_def Let_def
        split: option.splits)
qed

lemma stress_context_success:
  "stress_context fuel env args w = Some (EXIT_SUCCESS, g) \<Longrightarrow>
   \<exists>g3. stress_threads fuel env 0 (loop_entry env args w) = Some g3 \<and>
        (EXIT_SUCCESS, g) = context_finish env args g3"
  by (auto simp: stress_context_def loop_entry_def Let_def context_finish_def
      split: if_splits prod.splits bool.splits option.splits)

lemma canary_loop_frame:
  "counter (canary_loop args ds g) = counter g \<and>
   proc_states (canary_loop args ds g) = proc_states g \<and>
   checks (canary_loop args ds g) = checks g \<and>
   context_counter (canary_loop args ds g) = context_counter g \<and>
   stress_max_ops (canary_loop args ds g) = stress_max_ops g \<and>
   set_counter_calls (canary_loop args ds g) = set_counter_calls g"
  by (induction ds arbitrary: g) (simp_all add: canary_check_def pr_fail_def Let_def)

lemma context_finish_fields:
  "fst (context_finish env args g) = EXIT_SUCCESS"
  "counter (snd (context_finish env args g)) = context_counter g div 1000"
  "context_counter (snd (context_finish env args g)) = context_counter g"
  "stress_max_ops (snd (context_finish env args g)) = stress_max_ops g"
  "checks (snd (context_finish env args g)) = checks g"
  "set_counter_calls (snd (context_finish env args g)) = set_counter_calls g @ [context_counter g div 1000]"
  "proc_states (snd (context_finish env args g)) = proc_states g @ [STRESS_STATE_DEINIT]"
  by (simp_all add: context_finish_def Let_def canary_loop_frame stress_set_proc_state_def
      set_counter_def)

lemma loop_entry_inv:
  assumes "max_ops args * 1000 \<noteq> 0"
  shows "threads_inv (loop_entry env args w)"
proof -
  have "unat (max_ops args * 1000) + 2 < 2 ^ 64"
    using scaled_ceiling_room [of "max_ops args"] by linarith
  moreover have "0 < unat (max_ops args * 1000)"
    using assms by (simp add: unat_gt_0)
  ultimately show ?thesis
    using assms by (simp add: threads_inv_def started_ok_def loop_entry_fields)
qed

subsection \<open>The capability stressor\<close>

lemma keep_stressing_bounded:
  "\<forall>n. keep_stressing_flag env n \<Longrightarrow> max_ops args \<noteq> 0 \<Longrightarrow>
   keep_stressing env args w = (counter w < max_ops args)"
  by (simp add: keep_stressing_def)

lemma capgetset_fields:
  "counter (snd (stress_capgetset_pid env args p ds ex w)) = counter w + 1"
  "checks (snd (stress_capgetset_pid env args p ds ex w)) = checks w"
  "proc_states (snd (stress_capgetset_pid env args p ds ex w)) = proc_states w"
  "probes (snd (stress_capgetset_pid env args p ds ex w)) = probes w @ [(p, ds, ex)]"
  by (simp_all add: stress_capgetset_pid_def Let_def inc_counter_def pr_fail_def)

lemma checked_probes: "probes (checked w) = probes w"
  by (simp add: checked_def)

lemma probed_below:
  assumes "counter w < max_ops args"
  shows "unat (counter (snd (stress_capgetset_pid env args p ds ex w))) = Suc (unat (counter w))"
    and "unat (counter (snd (stress_capgetset_pid env args p ds ex w))) \<le> unat (max_ops args)"
proof -
  show a: "unat (counter (snd (stress_capgetset_pid env args p ds ex w))) = Suc (unat (counter w))"
    using unat_inc_less [OF assms] by (simp add: capgetset_fields)
  have "unat (counter w) < unat (max_ops args)" using assms by (simp add: word_less_nat_alt)
  with a show "unat (counter (snd (stress_capgetset_pid env args p ds ex w))) \<le> unat (max_ops args)" by simp
qed

lemma cap_readdir_loop_bounded:
  "\<forall>n. keep_stressing_flag env n \<Longrightarrow> max_ops args \<noteq> 0 \<Longrightarrow> counter w < max_ops args \<Longrightarrow>
   unat (counter w) \<le> unat (counter (cap_readdir_loop env args ds w)) \<and>
   unat (counter (cap_readdir_loop env args ds w)) \<le> unat (max_ops args) \<and>
   proc_states (cap_readdir_loop env args ds w) = proc_states w"
proof (induction ds arbitrary: w)
  case Nil
  then show ?case by (simp add: word_less_nat_alt)
next
  case (Cons d ds)
  have le: "unat (counter w) \<le> unat (max_ops args)"
    using Cons.prems(3) by (simp add: word_less_nat_alt)
  show ?case
  proof (cases "(case d of [] \<Rightarrow> False | c # _ \<Rightarrow> isdigit c)")
    case False
    then show ?thesis using Cons.IH [OF Cons.prems] by simp
  next
    case True
    show ?thesis
    proof (cases "sscanf_intmax d")
      case None
      then show ?thesis using True Cons.IH [OF Cons.prems] by simp
    next
      case (Some p)
      let ?w1 = "snd (stress_capgetset_pid env args (pid_t p) False False w)"
      note b = probed_below [OF Cons.prems(3), of env "pid_t p" False False]
      show ?thesis
      proof (cases "counter ?w1 < max_ops args")
        case k: True
        then have "counter (checked ?w1) < max_ops args" by (simp add: checked_fields)
        from Cons.IH [OF Cons.prems(1,2) this] b k True Some Cons.prems(1,2)
        show ?thesis
          by (simp add: keep_stressing_bounded checked_fields capgetset_fields)
      next
        case k: False
        with b True Some Cons.prems(1,2) show ?thesis
          by (simp add: keep_stressing_bounded checked_fields capgetset_fields)
      qed
    qed
  qed
qed

lemma cap_iteration_bounded:
  assumes "\<forall>n. keep_stressing_flag env n" "max_ops args \<noteq> 0" "counter w < max_ops args"
    and "cap_iteration env args dir w = (b, w')"
  shows "unat (counter w) < unat (counter w') \<and> proc_states w' = proc_states w \<and>
         (if b then counter w' < max_ops args else counter w' = max_ops args)"
proof -
  let ?w1 = "snd (stress_capgetset_pid env args 1 False True w)"
  note b1 = probed_below [OF assms(3), of env 1 False True]
  show ?thesis
  proof (cases "counter ?w1 < max_ops args")
    case False
    then have "(b, w') = (False, checked ?w1)"
      using assms by (simp add: cap_iteration_def keep_stressing_bounded)
    then show ?thesis
      using b1 False by (simp add: checked_fields not_below_ceiling capgetset_fields)
  next
    case k1: True
    let ?w2 = "snd (stress_capgetset_pid env args (pid args) True True (checked ?w1))"
    have c1: "counter (checked ?w1) < max_ops args" using k1 by (simp add: checked_fields)
    note b2 = probed_below [OF c1, of env "pid args" True True]
    show ?thesis
    proof (cases "counter ?w2 < max_ops args")
      case False
      then have "(b, w') = (False, checked ?w2)"
        using assms k1 by (simp add: cap_iteration_def keep_stressing_bounded Let_def)
      then show ?thesis
        using b1 b2 False
        by (simp add: checked_fields not_below_ceiling capgetset_fields)
    next
      case k2: True
      let ?w3 = "snd (stress_capgetset_pid env args (getppid env) False False (checked ?w2))"
      have c2: "counter (checked ?w2) < max_ops args" using k2 by (simp add: checked_fields)
      note b3 = probed_below [OF c2, of env "getppid env" False False]
      show ?thesis
      proof (cases "counter ?w3 < max_ops args")
        case False
        then have "(b, w') = (False, checked ?w3)"
          using assms k1 k2
          by (simp add: cap_iteration_def keep_stressing_bounded Let_def)
        then show ?thesis
          using b1 b2 b3 False
          by (simp add: checked_fields not_below_ceiling capgetset_fields)
      next
        case k3: True
        let ?w4 = "case dir of None \<Rightarrow> checked ?w3 | Some ds \<Rightarrow> cap_readdir_loop env args ds (checked ?w3)"
        have c3: "counter (checked ?w3) < max_ops args" using k3 by (simp add: checked_fields)
        have r: "unat (counter (checked ?w3)) \<le> unat (counter ?w4) \<and>
                 unat (counter ?w4) \<le> unat (max_ops args) \<and>
                 proc_states ?w4 = proc_states (checked ?w3)"
        proof (cases dir)
          case None
          then show ?thesis using c3 by (simp add: word_less_nat_alt)
        next
          case (Some ds)
          then show ?thesis
            using cap_readdir_loop_bounded [OF assms(1,2) c3, of ds] by simp
        qed
        have e: "(b, w') = (counter ?w4 < max_ops args, checked ?w4)"
          using assms k1 k2 k3
          by (simp add: cap_iteration_def keep_stressing_bounded Let_def)
        have "unat (counter w) < unat (counter ?w4)"
          using b1 b2 b3 r by (simp add: checked_fields)
        moreover have "proc_states ?w4 = proc_states w"
          using r by (simp add: checked_fields capgetset_fields)
        moreover have "\<not> counter ?w4 < max_ops args \<Longrightarrow> counter ?w4 = max_ops args"
          using r by (simp add: not_below_ceiling)
        ultimately show ?thesis using e by (auto simp: checked_fields)
      qed
    qed
  qed
qed

lemma cap_loop_exact:
  "\<forall>n. keep_stressing_flag env n \<Longrightarrow> max_ops args \<noteq> 0 \<Longrightarrow> counter w < max_ops args \<Longrightarrow>
   unat (max_ops args) \<le> length dirs + unat (counter w) \<Longrightarrow>
   \<exists>w'. cap_loop env args dirs w = Some w' \<and> counter w' = max_ops args \<and>
        proc_states w' = proc_states w"
proof (induction dirs arbitrary: w)
  case Nil
  then show ?case by (simp add: word_less_nat_alt)
next
  case (Cons dir dirs)
  obtain b w1 where it: "cap_iteration env args dir w = (b, w1)"
    by (cases "cap_iteration env args dir w")
  note step = cap_iteration_bounded [OF Cons.prems(1,2,3) it]
  show ?case
  proof (cases b)
    case False
    then show ?thesis using it step by simp
  next
    case True
    then have lt: "counter w1 < max_ops args" using step by simp
    have "unat (max_ops args) \<le> length dirs + unat (counter w1)"
      using Cons.prems(4) step by simp
    from Cons.IH [OF Cons.prems(1,2) lt this] obtain w' where
      "cap_loop env args dirs w1 = Some w'" "counter w' = max_ops args" "proc_states w' = proc_states w1"
      by blast
    then show ?thesis using it True step by simp
  qed
qed

lemma probe_checked_inv:
  "cap_base (checked (snd (stress_capgetset_pid env args p ds ex w))) = cap_base w"
  "cap_slack (checked (snd (stress_capgetset_pid env args p ds ex w))) = cap_slack w"
  "proc_states (checked (snd (stress_capgetset_pid env args p ds ex w))) = proc_states w"
  by (simp_all add: cap_base_def cap_slack_def checked_fields checked_probes capgetset_fields)

lemma checked_inv:
  "cap_base (checked w) = cap_base w"
  "cap_slack (checked w) = cap_slack w + 1"
  by (simp_all add: cap_base_def cap_slack_def checked_fields checked_probes)

lemma cap_readdir_loop_inv:
  "cap_base (cap_readdir_loop env args ds w) = cap_base w \<and>
   cap_slack w \<le> cap_slack (cap_readdir_loop env args ds w) \<and>
   proc_states (cap_readdir_loop env args ds w) = proc_states w"
proof (induction ds arbitrary: w)
  case Nil
  then show ?case by simp
next
  case (Cons d ds)
  show ?case
  proof (cases "(case d of [] \<Rightarrow> False | c # _ \<Rightarrow> isdigit c)")
    case False
    then show ?thesis using Cons.IH [of w] by simp
  next
    case True
    show ?thesis
    proof (cases "sscanf_intmax d")
      case None
      then show ?thesis using True Cons.IH [of w] by simp
    next
      case (Some p)
      let ?w1 = "checked (snd (stress_capgetset_pid env args (pid_t p) False False w))"
      show ?thesis
        using True Some Cons.IH [of ?w1] probe_checked_inv [of env args "pid_t p" False False w]
        by (simp add: Let_def)
    qed
  qed
qed

lemma cap_iteration_inv:
  assumes "cap_iteration env args dir w = (b, w')"
  shows "cap_base w' = cap_base w \<and> cap_slack w \<le> cap_slack w' \<and> proc_states w' = proc_states w"
proof -
  let ?w1 = "checked (snd (stress_capgetset_pid env args 1 False True w))"
  let ?w2 = "checked (snd (stress_capgetset_pid env args (pid args) True True ?w1))"
  let ?w3 = "checked (snd (stress_capgetset_pid env args (getppid env) False False ?w2))"
  let ?w4 = "case dir of None \<Rightarrow> ?w3 | Some ds \<Rightarrow> cap_readdir_loop env args ds ?w3"
  note p1 = probe_checked_inv [of env args 1 False True w]
  note p2 = probe_checked_inv [of env args "pid args" True True ?w1]
  note p3 = probe_checked_inv [of env args "getppid env" False False ?w2]
  have p4: "cap_base ?w4 = cap_base ?w3 \<and> cap_slack ?w3 \<le> cap_slack ?w4 \<and>
            proc_states ?w4 = proc_states ?w3"
    using cap_readdir_loop_inv [of env args _ ?w3] by (cases dir) simp_all
  have "w' = ?w1 \<or> w' = ?w2 \<or> w' = ?w3 \<or> w' = checked ?w4"
    using assms by (auto simp: cap_iteration_def Let_def split: if_splits)
  then show ?thesis
    using p1 p2 p3 p4 checked_inv [of ?w4] by (auto simp: checked_fields)
qed

lemma cap_loop_inv:
  "cap_loop env args dirs w = Some w' \<Longrightarrow>
   cap_base w' = cap_base w \<and> cap_slack w \<le> cap_slack w' \<and> proc_states w' = proc_states w"
proof (induction dirs arbitrary: w)
  case Nil
  then show ?case by simp
next
  case (Cons dir dirs)
  obtain b w1 where it: "cap_iteration env args dir w = (b, w1)"
    by (cases "cap_iteration env args dir w")
  note step = cap_iteration_inv [OF it]
  show ?case
  proof (cases b)
    case False
    then show ?thesis using it step Cons.prems by simp
  next
    case True
    then have "cap_loop env args dirs w1 = Some w'" using it Cons.prems by simp
    from Cons.IH [OF this] step show ?thesis by simp
  qed
qed

lemma cap_entry_fields:
  "counter (cap_entry w) = counter w"
  "checks (cap_entry w) = checks w"
  "proc_states (cap_entry w) = proc_states w @ [STRESS_STATE_RUN]"
  "probes (cap_entry w) = []"
  by (simp_all add: cap_entry_def stress_set_proc_state_def worker.defs cap_worker.defs)

lemma stress_cap_eq:
  "stress_cap env args dirs w =
     map_option (\<lambda>w'. (EXIT_SUCCESS, stress_set_proc_state STRESS_STATE_DEINIT w'))
       (cap_loop env args dirs (cap_entry w))"
  by (simp add: stress_cap_def cap_entry_def split: option.splits)

lemma stress_cap_general:
  assumes "stress_cap env args dirs w = Some (rc, g)"
  shows "rc = EXIT_SUCCESS"
    and "counter g = counter w + of_nat (length (probes g))"
    and "checks w + length (probes g) \<le> checks g"
    and "proc_states g = proc_states w @ [STRESS_STATE_RUN, STRESS_STATE_DEINIT]"
proof -
  from assms obtain w' where l: "cap_loop env args dirs (cap_entry w) = Some w'"
    and g: "g = stress_set_proc_state STRESS_STATE_DEINIT w'" and rc: "rc = EXIT_SUCCESS"
    by (auto simp: stress_cap_eq)
  note inv = cap_loop_inv [OF l]
  show "rc = EXIT_SUCCESS" by (rule rc)
  have "counter w' - of_nat (length (probes w')) = counter w"
    using inv by (simp add: cap_base_def cap_entry_fields)
  then show "counter g = counter w + of_nat (length (probes g))"
    by (simp add: g stress_set_proc_state_def algebra_simps)
  show "checks w + length (probes g) \<le> checks g"
    using inv by (simp add: cap_slack_def cap_entry_fields g stress_set_proc_state_def)
  show "proc_states g = proc_states w @ [STRESS_STATE_RUN, STRESS_STATE_DEINIT]"
    using inv by (simp add: cap_entry_fields g stress_set_proc_state_def)
qed

lemma stress_cap_exact:
  assumes "\<forall>n. keep_stressing_flag env n" "max_ops args \<noteq> 0" "counter w = 0"
    and "unat (max_ops args) \<le> length dirs"
  shows "\<exists>g. stress_cap env args dirs w = Some (EXIT_SUCCESS, g) \<and> counter g = max_ops args"
proof -
  have lt: "counter (cap_entry w) < max_ops args"
    using assms(2,3) by (simp add: cap_entry_fields word_neq_0_conv)
  have "unat (max_ops args) \<le> length dirs + unat (counter (cap_entry w))"
    using assms(4) by simp
  from cap_loop_exact [OF assms(1,2) lt this] obtain w' where
    "cap_loop env args dirs (cap_entry w) = Some w'" "counter w' = max_ops args"
    by blast
  then show ?thesis by (simp add: stress_cap_eq stress_set_proc_state_def)
qed

subsection \<open>The watchdog stressor\<close>

lemma sys_fields:
  "counter (sys c w) = counter w" "checks (sys c w) = checks w"
  "proc_states (sys c w) = proc_states w" "messages (sys c w) = messages w"
  "fd (sys c w) = fd w" "syscalls (sys c w) = syscalls w @ [c]"
  by (simp_all add: sys_def)

lemma magic_close_fields:
  "counter (stress_watchdog_magic_close env w) = counter w"
  "checks (stress_watchdog_magic_close env w) = checks w"
  "proc_states (stress_watchdog_magic_close env w) = proc_states w"
  "messages (stress_watchdog_magic_close env w) = messages w"
  "fd (stress_watchdog_magic_close env w) = fd w"
  by (simp_all add: stress_watchdog_magic_close_def sys_fields)

lemma ioctls_fields:
  "counter (foldl (\<lambda>v c. sys (Sys_ioctl (fd v) c) v) w cs) = counter w \<and>
   checks (foldl (\<lambda>v c. sys (Sys_ioctl (fd v) c) v) w cs) = checks w \<and>
   proc_states (foldl (\<lambda>v c. sys (Sys_ioctl (fd v) c) v) w cs) = proc_states w \<and>
   messages (foldl (\<lambda>v c. sys (Sys_ioctl (fd v) c) v) w cs) = messages w \<and>
   fd (foldl (\<lambda>v c. sys (Sys_ioctl (fd v) c) v) w cs) = fd w"
  by (induction cs arbitrary: w) (simp_all add: sys_fields)

lemma watchdog_opened_fields:
  "counter (watchdog_opened env d w) = counter w"
  "checks (watchdog_opened env d w) = checks w"
  "proc_states (watchdog_opened env d w) = proc_states w"
  "messages (watchdog_opened env d w) = messages w"
  "fd (watchdog_opened env d w) = int d"
  by (simp_all add: watchdog_opened_def Let_def sys_fields magic_close_fields ioctls_fields)

lemma watchdog_busy_fields:
  "counter (watchdog_busy w) = counter w"
  "checks (watchdog_busy w) = checks w"
  "proc_states (watchdog_busy w) = proc_states w"
  "messages (watchdog_busy w) = messages w"
  "fd (watchdog_busy w) = - 1"
  "syscalls (watchdog_busy w) = syscalls w @ [Sys_open (- 1), Sys_nanosleep]"
  by (simp_all add: watchdog_busy_def sys_fields)

lemma delivery_fields:
  "counter (watchdog_interrupted env (snd (stress_watchdog_handler env s w))) = counter w"
  "checks (watchdog_interrupted env (snd (stress_watchdog_handler env s w))) = checks w"
  "proc_states (watchdog_interrupted env (snd (stress_watchdog_handler env s w))) = proc_states w"
  "messages (watchdog_interrupted env (snd (stress_watchdog_handler env s w))) = messages w"
  by (simp_all add: watchdog_interrupted_def stress_watchdog_handler_def sys_fields
      magic_close_fields stress_watchdog_magic_close_def)

lemma signal_deliveries_fields:
  "counter (signal_deliveries env n w) = counter w \<and>
   checks (signal_deliveries env n w) = checks w \<and>
   proc_states (signal_deliveries env n w) = proc_states w \<and>
   messages (signal_deliveries env n w) = messages w"
  by (induction n arbitrary: w) (simp_all add: delivery_fields)

lemma watchdog_pass_frame:
  "watchdog_pass env args e w = (pe, w') \<Longrightarrow>
   proc_states w' = proc_states w \<and> checks w' = checks w"
  by (cases e)
    (auto simp: watchdog_busy_fields watchdog_opened_fields signal_deliveries_fields sys_fields delivery_fields
      pr_fail_def inc_counter_def Let_def split: if_splits)

lemma watchdog_pass_counter:
  "watchdog_pass env args e w = (pe, w') \<Longrightarrow>
   counter w' = (if pe = Next \<and> e \<noteq> Open_fails then counter w + 1 else counter w)"
  by (cases e)
    (auto simp: watchdog_busy_fields watchdog_opened_fields signal_deliveries_fields sys_fields delivery_fields
      pr_fail_def inc_counter_def Let_def split: if_splits)

lemma watchdog_pass_end:
  "watchdog_pass env args e w = (pe, w') \<Longrightarrow>
   (pe = Jumped) = is_signal e \<and> (pe = Break EXIT_FAILURE \<or> pe = Next \<or> pe = Jumped) \<and>
   (pe = Next \<and> e \<noteq> Open_fails \<longrightarrow> (\<exists>d. e = Open_ok d True))"
  by (cases e) (auto simp: Let_def split: if_splits)



lemma watchdog_loop_deinit:
  "watchdog_loop env args evs w = Some (rc, g) \<Longrightarrow> list_all (\<lambda>e. \<not> is_signal e) evs \<Longrightarrow>
   proc_states g = proc_states w @ [STRESS_STATE_DEINIT]"
proof (induction evs arbitrary: w)
  case Nil
  then show ?case by (auto simp: stress_set_proc_state_def checked_def split: if_splits)
next
  case (Cons e es)
  show ?case
  proof (cases "keep_stressing env args w")
    case False
    then show ?thesis using Cons.prems by (auto simp: stress_set_proc_state_def checked_def)
  next
    case True
    obtain pe w1 where p: "watchdog_pass env args e (checked w) = (pe, w1)"
      by (cases "watchdog_pass env args e (checked w)")
    note fr = watchdog_pass_frame [OF p] and en = watchdog_pass_end [OF p]
    have ns: "\<not> is_signal e" using Cons.prems(2) by simp
    consider "pe = Next" | "pe = Break EXIT_FAILURE" using en ns by auto
    then show ?thesis
    proof cases
      case 1
      then have "watchdog_loop env args es w1 = Some (rc, g)" using Cons.prems(1) True p by simp
      from Cons.IH [OF this] Cons.prems(2) fr show ?thesis by (simp add: checked_fields)
    next
      case 2
      then show ?thesis
        using Cons.prems(1) True p fr by (auto simp: stress_set_proc_state_def checked_fields)
    qed
  qed
qed

lemma watchdog_loop_checks:
  "watchdog_loop env args evs w = Some (rc, g) \<Longrightarrow> unat (counter w) \<le> checks w \<Longrightarrow>
   unat (counter g) \<le> checks g"
proof (induction evs arbitrary: w)
  case Nil
  then show ?case by (auto simp: stress_set_proc_state_def checked_def split: if_splits)
next
  case (Cons e es)
  show ?case
  proof (cases "keep_stressing env args w")
    case False
    then show ?thesis using Cons.prems by (auto simp: stress_set_proc_state_def checked_def)
  next
    case True
    obtain pe w1 where p: "watchdog_pass env args e (checked w) = (pe, w1)"
      by (cases "watchdog_pass env args e (checked w)")
    note fr = watchdog_pass_frame [OF p] and cn = watchdog_pass_counter [OF p]
    have le: "unat (counter w1) \<le> checks w1"
      using fr cn Cons.prems(2) unat_inc_le [of "counter w"]
      by (auto simp: checked_fields split: if_splits)
    show ?thesis
    proof (cases pe)
      case Next
      then have "watchdog_loop env args es w1 = Some (rc, g)" using Cons.prems(1) True p by simp
      from Cons.IH [OF this le] show ?thesis .
    next
      case (Break x)
      then show ?thesis using Cons.prems(1) True p le by (auto simp: stress_set_proc_state_def)
    next
      case Jumped
      then show ?thesis using Cons.prems(1) True p le by auto
    qed
  qed
qed

lemma watchdog_loop_ceiling:
  "watchdog_loop env args evs w = Some (rc, g) \<Longrightarrow> max_ops args \<noteq> 0 \<Longrightarrow>
   counter w \<le> max_ops args \<Longrightarrow> counter g \<le> max_ops args"
proof (induction evs arbitrary: w)
  case Nil
  then show ?case by (auto simp: stress_set_proc_state_def checked_def split: if_splits)
next
  case (Cons e es)
  show ?case
  proof (cases "keep_stressing env args w")
    case False
    then show ?thesis using Cons.prems by (auto simp: stress_set_proc_state_def checked_def)
  next
    case True
    then have lt: "counter w < max_ops args" using Cons.prems(2) by (simp add: keep_stressing_def)
    obtain pe w1 where p: "watchdog_pass env args e (checked w) = (pe, w1)"
      by (cases "watchdog_pass env args e (checked w)")
    note cn = watchdog_pass_counter [OF p]
    have le: "counter w1 \<le> max_ops args"
      using cn lt inc_le [OF lt] by (auto simp: checked_fields split: if_splits)
    show ?thesis
    proof (cases pe)
      case Next
      then have "watchdog_loop env args es w1 = Some (rc, g)" using Cons.prems(1) True p by simp
      from Cons.IH [OF this Cons.prems(2) le] show ?thesis .
    next
      case (Break x)
      then show ?thesis using Cons.prems(1) True p le by (auto simp: stress_set_proc_state_def)
    next
      case Jumped
      then show ?thesis using Cons.prems(1) True p le by auto
    qed
  qed
qed

lemma watchdog_loop_normal_exit:
  "watchdog_loop env args evs w = Some (EXIT_SUCCESS, g) \<Longrightarrow> \<forall>n. keep_stressing_flag env n \<Longrightarrow>
   max_ops args \<noteq> 0 \<Longrightarrow> counter w \<le> max_ops args \<Longrightarrow> list_all (\<lambda>e. \<not> is_signal e) evs \<Longrightarrow>
   counter g = max_ops args"
proof (induction evs arbitrary: w)
  case Nil
  then show ?case
    by (auto simp: stress_set_proc_state_def checked_def keep_stressing_def split: if_splits)
next
  case (Cons e es)
  show ?case
  proof (cases "keep_stressing env args w")
    case False
    then show ?thesis using Cons.prems
      by (auto simp: stress_set_proc_state_def checked_def keep_stressing_def)
  next
    case True
    then have lt: "counter w < max_ops args" using Cons.prems(3) by (simp add: keep_stressing_def)
    obtain pe w1 where p: "watchdog_pass env args e (checked w) = (pe, w1)"
      by (cases "watchdog_pass env args e (checked w)")
    note cn = watchdog_pass_counter [OF p] and en = watchdog_pass_end [OF p]
    have le: "counter w1 \<le> max_ops args"
      using cn lt inc_le [OF lt] by (auto simp: checked_fields split: if_splits)
    have ns: "\<not> is_signal e" using Cons.prems(5) by simp
    consider "pe = Next" | "pe = Break EXIT_FAILURE" using en ns by auto
    then show ?thesis
    proof cases
      case 1
      then have "watchdog_loop env args es w1 = Some (EXIT_SUCCESS, g)"
        using Cons.prems(1) True p by simp
      from Cons.IH [OF this Cons.prems(2,3) le] Cons.prems(5) show ?thesis by simp
    next
      case 2
      then show ?thesis using Cons.prems(1) True p by auto
    qed
  qed
qed

lemma watchdog_loop_all_ok:
  "\<forall>n. keep_stressing_flag env n \<Longrightarrow> max_ops args \<noteq> 0 \<Longrightarrow> counter w \<le> max_ops args \<Longrightarrow>
   unat (max_ops args) \<le> length ds + unat (counter w) \<Longrightarrow>
   \<exists>g. watchdog_loop env args (map (\<lambda>d. Open_ok d True) ds) w = Some (EXIT_SUCCESS, g) \<and>
       counter g = max_ops args"
proof (induction ds arbitrary: w)
  case Nil
  then have "counter w = max_ops args"
    by (simp add: word_le_nat_alt word_unat_eq_iff)
  then show ?case
    using Nil.prems(2) by (simp add: keep_stressing_def stress_set_proc_state_def checked_def)
next
  case (Cons d ds)
  show ?case
  proof (cases "counter w < max_ops args")
    case False
    then have "counter w = max_ops args" using Cons.prems(3) by simp
    then show ?thesis
      using Cons.prems(2) by (simp add: keep_stressing_def stress_set_proc_state_def checked_def)
  next
    case True
    then have k: "keep_stressing env args w" using Cons.prems(1) by (simp add: keep_stressing_def)
    obtain w1 where p: "watchdog_pass env args (Open_ok d True) (checked w) = (Next, w1)"
      by (simp add: Let_def)
    from watchdog_pass_counter [OF p] have c1: "counter w1 = counter w + 1"
      by (simp add: checked_fields)
    have le: "counter w1 \<le> max_ops args" using c1 inc_le [OF True] by simp
    have "unat (counter w1) = Suc (unat (counter w))" using c1 unat_inc_less [OF True] by simp
    then have "unat (max_ops args) \<le> length ds + unat (counter w1)" using Cons.prems(4) by simp
    from Cons.IH [OF Cons.prems(1,2) le this] obtain g where
      "watchdog_loop env args (map (\<lambda>d. Open_ok d True) ds) w1 = Some (EXIT_SUCCESS, g)"
      "counter g = max_ops args" by blast
    then show ?thesis using k p by (simp del: watchdog_pass.simps)
  qed
qed

lemma watchdog_entry_fields:
  "counter (watchdog_entry w) = counter w"
  "checks (watchdog_entry w) = checks w"
  "proc_states (watchdog_entry w) = proc_states w @ [STRESS_STATE_RUN]"
  "messages (watchdog_entry w) = messages w"
  "fd (watchdog_entry w) = 0"
  "syscalls (watchdog_entry w) = []"
  by (simp_all add: watchdog_entry_def stress_set_proc_state_def worker.defs watchdog_worker.defs)

lemma stress_watchdog_running:
  "list_all (\<lambda>ok. ok) (sighandler_results env) \<Longrightarrow> access_result env = ACCESS_OK \<Longrightarrow>
   stress_watchdog env args evs w = watchdog_loop env args evs (watchdog_entry w)"
  by (simp add: stress_watchdog_def watchdog_entry_def Let_def)

lemma stress_watchdog_early:
  "\<not> (list_all (\<lambda>ok. ok) (sighandler_results env) \<and> access_result env = ACCESS_OK) \<Longrightarrow>
   \<exists>rc g. stress_watchdog env args evs w = Some (rc, g) \<and> counter g = counter w \<and>
     checks g = checks w \<and> proc_states g = proc_states w"
  by (auto simp: stress_watchdog_def Let_def pr_inf_skip_def worker.defs watchdog_worker.defs)

subsection \<open>Whole runs of the context stressor\<close>

lemma stress_context_run:
  assumes "setup_succeeds env" "\<forall>n. keep_stressing_flag env n" "max_ops args * 1000 \<noteq> 0"
    and "unat (max_ops args * 1000) + 2 \<le> fuel"
  shows "\<exists>g. stress_context fuel env args w = Some (EXIT_SUCCESS, g) \<and>
             unat (max_ops args * 1000) \<le> unat (context_counter g) \<and>
             unat (context_counter g) \<le> unat (max_ops args * 1000) + 2 \<and>
             counter g = context_counter g div 1000"
proof -
  let ?e = "loop_entry env args w"
  have inv: "threads_inv ?e" using assms(3) by (rule loop_entry_inv)
  have "unat (stress_max_ops ?e) + 2 \<le> fuel + unat (context_counter ?e)"
    using assms(4) by (simp add: loop_entry_fields)
  from stress_threads_returns [OF inv _ this, of 0 env]
  obtain g3 where run: "stress_threads fuel env 0 ?e = Some g3" by auto
  have up: "unat (context_counter g3) \<le> unat (max_ops args * 1000) + 2"
    using stress_threads_upper [OF run inv] by (simp add: loop_entry_fields)
  have "max_ops args * 1000 \<le> context_counter g3"
    using stress_threads_lower [OF run assms(2)] assms(3) by (simp add: loop_entry_fields)
  then have lo: "unat (max_ops args * 1000) \<le> unat (context_counter g3)"
    by (simp add: word_le_nat_alt)
  have "stress_context fuel env args w = Some (context_finish env args g3)"
    using run by (simp add: stress_context_loop [OF assms(1)])
  then have "stress_context fuel env args w = Some (EXIT_SUCCESS, snd (context_finish env args g3))"
    using context_finish_fields(1) [of env args g3] by (simp add: prod_eq_iff)
  then show ?thesis using up lo by (auto simp: context_finish_fields)
qed

lemma stress_context_exact:
  assumes "setup_succeeds env" "\<forall>n. keep_stressing_flag env n" "max_ops args \<noteq> 0"
    and "unat (max_ops args) * 1000 < 2 ^ 64" "unat (max_ops args) * 1000 + 2 \<le> fuel"
  shows "\<exists>g. stress_context fuel env args w = Some (EXIT_SUCCESS, g) \<and> counter g = max_ops args"
proof -
  have m: "unat (max_ops args * 1000) = unat (max_ops args) * 1000"
    using assms(4) by (simp add: unat_word_ariths)
  have "0 < unat (max_ops args)" using assms(3) by (simp add: unat_gt_0)
  then have nz: "max_ops args * 1000 \<noteq> 0" using m by (metis mult_is_0 neq0_conv unat_0 zero_neq_numeral)
  have "unat (max_ops args * 1000) + 2 \<le> fuel" using m assms(5) by simp
  from stress_context_run [OF assms(1,2) nz this, of w] obtain g where
    g: "stress_context fuel env args w = Some (EXIT_SUCCESS, g)"
      "unat (max_ops args * 1000) \<le> unat (context_counter g)"
      "unat (context_counter g) \<le> unat (max_ops args * 1000) + 2"
      "counter g = context_counter g div 1000"
    by blast
  from scaled_exact [OF assms(4) g(2,3)] g(1,4) show ?thesis by simp
qed

lemma loop_entry_contexts:
  "list_all (getcontext_ok env) [0..<STRESS_CONTEXTS] \<Longrightarrow>
   contexts (loop_entry env args w) =
     map (\<lambda>i. \<lparr>cu_check0 = stress_mwc32 env (2 * i), cu_check1 = stress_mwc32 env (2 * i + 1),
               canary_check0 = stress_mwc32 env (2 * i),
               canary_check1 = stress_mwc32 env (2 * i + 1)\<rparr>) [0, 1, 2]"
  by (simp add: loop_entry_def upt_contexts stress_context_init_def Let_def context_setup_def
      context_statics_def worker.defs context_worker.defs stress_set_proc_state_def)
    (simp add: STRESS_CONTEXTS_def numeral_3_eq_3)

lemma stress_context_rc:
  "stress_context fuel env args w = Some (rc, g) \<Longrightarrow> setup_succeeds env \<Longrightarrow> rc = EXIT_SUCCESS"
  by (auto simp: stress_context_loop context_finish_def Let_def)

subsection \<open>The concrete environments\<close>

lemma quiet_watchdog_env_ok:
  "list_all (\<lambda>ok. ok) (sighandler_results quiet_watchdog_env)"
  "access_result quiet_watchdog_env = ACCESS_OK"
  "\<forall>n. keep_stressing_flag quiet_watchdog_env n"
  by (simp_all add: quiet_watchdog_env_def list_all_iff)

lemma quiet_context_env_ok:
  "setup_succeeds quiet_context_env" "\<forall>n. keep_stressing_flag quiet_context_env n"
  by (simp_all add: setup_succeeds_def quiet_context_env_def upt_contexts)

lemma clobbering_context_env_ok:
  "setup_succeeds clobbering_context_env" "\<forall>n. keep_stressing_flag clobbering_context_env n"
  by (simp_all add: setup_succeeds_def clobbering_context_env_def quiet_context_env_def
      upt_contexts)

lemma quiet_cap_env_ok: "\<forall>n. keep_stressing_flag quiet_cap_env n"
  by (simp add: quiet_cap_env_def)

lemma fresh_worker_fields:
  "counter fresh_worker = 0" "checks fresh_worker = 0" "proc_states fresh_worker = []"
  "messages fresh_worker = []"
  by (simp_all add: fresh_worker_def)

lemma example_args_fields:
  "name (example_args nm n) = nm" "max_ops (example_args nm n) = n"
  "args_instance (example_args nm n) = 0" "pid (example_args nm n) = 4242"
  by (simp_all add: example_args_def)

lemma watchdog_run_simps:
  "stress_watchdog quiet_watchdog_env args evs w = watchdog_loop quiet_watchdog_env args evs (watchdog_entry w)"
  by (rule stress_watchdog_running) (simp_all add: quiet_watchdog_env_ok)


lemma stress_context_wrapped_ceiling:
  "stress_context fuel quiet_context_env (example_args ''context'' (2 ^ 61)) fresh_worker = None"
proof -
  let ?args = "example_args ''context'' (2 ^ 61)"
  have "max_ops ?args * 1000 = 0" by (simp add: example_args_def)
  then have "stress_max_ops (loop_entry quiet_context_env ?args fresh_worker) = 0"
    by (simp only: loop_entry_fields)
  from stress_threads_unbounded [OF quiet_context_env_ok(2) this]
  show ?thesis by (simp only: stress_context_loop [OF quiet_context_env_ok(1)] option.map)
qed

lemma watchdog_loop_busy_forever:
  "\<forall>n. keep_stressing_flag env n \<Longrightarrow> counter w < max_ops args \<Longrightarrow>
   watchdog_loop env args (replicate n Open_fails) w = None"
proof (induction n arbitrary: w)
  case 0
  then show ?case by (simp add: keep_stressing_def)
next
  case (Suc n)
  have k: "keep_stressing env args w" using Suc.prems by (simp add: keep_stressing_def)
  have "counter (watchdog_busy (checked w)) < max_ops args"
    using Suc.prems(2) by (simp add: watchdog_busy_fields checked_fields)
  from Suc.IH [OF Suc.prems(1) this] k show ?case by simp
qed

lemma stress_watchdog_busy_forever:
  "stress_watchdog quiet_watchdog_env (example_args ''watchdog'' 1) (replicate n Open_fails)
     fresh_worker = None"
  using watchdog_loop_busy_forever [of quiet_watchdog_env "watchdog_entry fresh_worker"
      "example_args ''watchdog'' 1" n]
  by (simp add: watchdog_run_simps quiet_watchdog_env_ok watchdog_entry_fields fresh_worker_fields
      example_args_fields)

subsection \<open>Where the micro threads evaluate the predicate\<close>

text \<open>
  Every \<^verbatim>\<open>do\<close> body counts once and is followed by one evaluation, except the body that
  starts a thread; the loop is left at an evaluation that fails, and every evaluation
  before that one has read the flag as true.
\<close>

lemma stress_threads_count:
  "stress_threads fuel env t g = Some g' \<Longrightarrow> started_ok g \<Longrightarrow> t < 3 \<Longrightarrow>
   checks g' + length (started g') + swaps g = checks g + length (started g) + swaps g' \<and>
   context_counter g' + of_nat (swaps g) = context_counter g + of_nat (swaps g') \<and>
   length (started g) \<le> length (started g') \<and> length (started g') \<le> 3"
proof (induction fuel arbitrary: t g)
  case 0
  then show ?case by simp
next
  case (Suc fuel)
  let ?t = "next_thread env t g"
  have lt: "?t < 3" using Suc.prems(3) by (rule next_thread_less)
  show ?case
  proof (cases "?t \<in> set (started g)")
    case False
    let ?g = "(thread_count g)\<lparr>started := ?t # started g\<rparr>"
    have run: "stress_threads fuel env ?t ?g = Some g'"
      using Suc.prems(1) False by (simp only: stress_threads_Suc if_True simp_thms)
    have ok: "started_ok ?g"
      using Suc.prems(2) False lt by (simp add: started_ok_def thread_count_def)
    from Suc.IH [OF run ok lt] show ?thesis by (simp add: thread_count_def algebra_simps)
  next
    case True
    show ?thesis
    proof (cases "context_loop_condition env (thread_count g)")
      case c: True
      let ?g = "checked (thread_count g)"
      have run: "stress_threads fuel env ?t ?g = Some g'"
        using Suc.prems(1) True c by (simp only: stress_threads_Suc if_True if_False simp_thms)
      have ok: "started_ok ?g"
        using Suc.prems(2) by (simp add: started_ok_def thread_count_def checked_def)
      from Suc.IH [OF run ok lt] show ?thesis by (simp add: thread_count_def checked_def algebra_simps)
    next
      case c: False
      then have "g' = checked (thread_count g)"
        using Suc.prems(1) True by (simp only: stress_threads_Suc if_True if_False simp_thms option.inject)
      moreover have "length (started g) \<le> 3"
        using Suc.prems(2) unfolding started_ok_def by (blast intro: started_length)
      ultimately show ?thesis by (simp add: thread_count_def checked_def)
    qed
  qed
qed

lemma stress_threads_exit:
  "stress_threads fuel env t g = Some g' \<Longrightarrow>
   checks g < checks g' \<and>
   \<not> keep_running_predicate (keep_stressing_flag env (checks g' - 1)) (stress_max_ops g')
       (context_counter g') \<and>
   (\<forall>n. checks g \<le> n \<and> Suc n < checks g' \<longrightarrow> keep_stressing_flag env n)"
proof (induction fuel arbitrary: t g)
  case 0
  then show ?case by simp
next
  case (Suc fuel)
  let ?t = "next_thread env t g"
  show ?case
  proof (cases "?t \<in> set (started g)")
    case False
    let ?g = "(thread_count g)\<lparr>started := ?t # started g\<rparr>"
    have run: "stress_threads fuel env ?t ?g = Some g'"
      using Suc.prems(1) False by (simp only: stress_threads_Suc if_True simp_thms)
    from Suc.IH [OF run] show ?thesis by (simp add: thread_count_def)
  next
    case True
    show ?thesis
    proof (cases "context_loop_condition env (thread_count g)")
      case c: True
      let ?g = "checked (thread_count g)"
      have run: "stress_threads fuel env ?t ?g = Some g'"
        using Suc.prems(1) True c by (simp only: stress_threads_Suc if_True if_False simp_thms)
      have f: "keep_stressing_flag env (checks g)"
        using c by (simp add: context_loop_condition_def thread_count_def)
      note ih = Suc.IH [OF run]
      have "\<forall>n. checks g \<le> n \<and> Suc n < checks g' \<longrightarrow> keep_stressing_flag env n"
      proof (intro allI impI)
        fix n assume n: "checks g \<le> n \<and> Suc n < checks g'"
        show "keep_stressing_flag env n"
        proof (cases "n = checks g")
          case True
          then show ?thesis using f by simp
        next
          case False
          then have "checks ?g \<le> n \<and> Suc n < checks g'"
            using n by (simp add: thread_count_def checked_def)
          then show ?thesis using ih by blast
        qed
      qed
      then show ?thesis using ih by (simp add: thread_count_def checked_def)
    next
      case c: False
      then have "g' = checked (thread_count g)"
        using Suc.prems(1) True by (simp only: stress_threads_Suc if_True if_False simp_thms option.inject)
      then show ?thesis
        using c by (auto simp: thread_count_def checked_def context_loop_condition_def
            keep_running_predicate_def)
    qed
  qed
qed

lemma stress_threads_cancelled:
  "\<not> keep_stressing_flag env (checks g + k) \<Longrightarrow> started_ok g \<Longrightarrow> t < 3 \<Longrightarrow>
   k + 4 \<le> fuel + length (started g) \<Longrightarrow>
   \<exists>g'. stress_threads fuel env t g = Some g' \<and> checks g' \<le> checks g + k + 1"
proof (induction fuel arbitrary: t g k)
  case 0
  have "length (started g) \<le> 3"
    using 0(2) unfolding started_ok_def by (blast intro: started_length)
  then show ?case using 0(4) by simp
next
  case (Suc fuel)
  let ?t = "next_thread env t g"
  have lt: "?t < 3" using Suc.prems(3) by (rule next_thread_less)
  show ?case
  proof (cases "?t \<in> set (started g)")
    case False
    let ?g = "(thread_count g)\<lparr>started := ?t # started g\<rparr>"
    have ok: "started_ok ?g"
      using Suc.prems(2) False lt by (simp add: started_ok_def thread_count_def)
    have f: "\<not> keep_stressing_flag env (checks ?g + k)"
      using Suc.prems(1) by (simp add: thread_count_def)
    have "k + 4 \<le> fuel + length (started ?g)"
      using Suc.prems(4) by (simp add: thread_count_def)
    from Suc.IH [OF f ok lt this] obtain g' where
      "stress_threads fuel env ?t ?g = Some g'" "checks g' \<le> checks ?g + k + 1" by blast
    then have "stress_threads (Suc fuel) env t g = Some g' \<and> checks g' \<le> checks g + k + 1"
      using False by (simp add: stress_threads_Suc thread_count_def del: stress_threads.simps)
    then show ?thesis by blast
  next
    case True
    have len: "length (started g) \<le> 3"
      using Suc.prems(2) unfolding started_ok_def by (blast intro: started_length)
    show ?thesis
    proof (cases "context_loop_condition env (thread_count g)")
      case c: False
      then have "stress_threads (Suc fuel) env t g = Some (checked (thread_count g))"
        using True by (simp only: stress_threads_Suc if_True if_False simp_thms)
      moreover have "checks (checked (thread_count g)) \<le> checks g + k + 1"
        by (simp add: checked_def thread_count_def)
      ultimately show ?thesis by blast
    next
      case c: True
      then have "keep_stressing_flag env (checks g)"
        by (simp add: context_loop_condition_def thread_count_def)
      then have "k \<noteq> 0" using Suc.prems(1) by (cases k) simp_all
      then obtain j where k: "k = Suc j" by (cases k) simp_all
      let ?g = "checked (thread_count g)"
      have ok: "started_ok ?g"
        using Suc.prems(2) by (simp add: started_ok_def thread_count_def checked_def)
      have f: "\<not> keep_stressing_flag env (checks ?g + j)"
        using Suc.prems(1) k by (simp add: thread_count_def checked_def)
      have "j + 4 \<le> fuel + length (started ?g)"
        using Suc.prems(4) k by (simp add: thread_count_def checked_def)
      from Suc.IH [OF f ok lt this] obtain g' where
        "stress_threads fuel env ?t ?g = Some g'" "checks g' \<le> checks ?g + j + 1" by blast
      then have "stress_threads (Suc fuel) env t g = Some g' \<and> checks g' \<le> checks g + k + 1"
        using True c k
        by (simp add: stress_threads_Suc thread_count_def checked_def del: stress_threads.simps)
      then show ?thesis by blast
    qed
  qed
qed

subsection \<open>Where the capability stressor evaluates the predicate\<close>

text \<open>
  \<open>cap_credit\<close> never drops by more than one: every probe is followed by an evaluation,
  and the worker goes on to the next probe only when that evaluation has read the flag
  as true.
\<close>

lemma flag_trues_Suc:
  "flag_trues env (Suc n) = flag_trues env n + (if keep_stressing_flag env n then 1 else 0)"
  by (simp add: flag_trues_def)

lemma flag_trues_between:
  "a \<le> b \<Longrightarrow>
   flag_trues env b = flag_trues env a + length (filter (keep_stressing_flag env) [a..<b])"
proof -
  assume "a \<le> b"
  then have "[0..<b] = [0..<a] @ [a..<b]"
    by (metis le_Suc_ex upt_add_eq_append zero_le)
  then show ?thesis by (simp add: flag_trues_def)
qed

lemma keep_stressing_flag_true:
  "keep_stressing env args w \<Longrightarrow> keep_stressing_flag env (checks w)"
  by (simp add: keep_stressing_def)

lemma probe_checked_credit:
  "cap_credit env (checked (snd (stress_capgetset_pid env args p ds ex w))) =
     cap_credit env w +
       (if keep_stressing_flag env (checks w) then 0 else - 1)"
  by (simp add: cap_credit_def checked_fields checked_probes capgetset_fields flag_trues_Suc)

lemma probe_checked_exit:
  "\<not> keep_stressing env args (snd (stress_capgetset_pid env args p ds ex w)) \<Longrightarrow>
   \<not> keep_running_predicate
       (keep_stressing_flag env (checks (checked (snd (stress_capgetset_pid env args p ds ex w))) - 1))
       (max_ops args) (counter (checked (snd (stress_capgetset_pid env args p ds ex w))))"
  by (simp add: keep_stressing_def keep_running_predicate_def checked_fields)

lemma cap_readdir_loop_credit:
  "cap_credit env w - 1 \<le> cap_credit env (cap_readdir_loop env args ds w) \<and>
   checks w \<le> checks (cap_readdir_loop env args ds w)"
proof (induction ds arbitrary: w)
  case Nil
  then show ?case by simp
next
  case (Cons d ds)
  show ?case
  proof (cases "(case d of [] \<Rightarrow> False | c # _ \<Rightarrow> isdigit c)")
    case False
    then show ?thesis using Cons.IH [of w] by simp
  next
    case True
    show ?thesis
    proof (cases "sscanf_intmax d")
      case None
      then show ?thesis using True Cons.IH [of w] by simp
    next
      case (Some p)
      let ?w0 = "snd (stress_capgetset_pid env args (pid_t p) False False w)"
      let ?w1 = "checked ?w0"
      note c = probe_checked_credit [of env args "pid_t p" False False w]
      have ch: "checks ?w1 = Suc (checks w)" by (simp add: checked_fields capgetset_fields)
      show ?thesis
      proof (cases "keep_stressing env args ?w0")
        case k: True
        then have "keep_stressing_flag env (checks w)"
          using keep_stressing_flag_true [OF k] by (simp add: capgetset_fields)
        then have "cap_credit env ?w1 = cap_credit env w" using c by simp
        with Cons.IH [of ?w1] ch True Some k show ?thesis by (simp add: Let_def)
      next
        case k: False
        have "cap_credit env w - 1 \<le> cap_credit env ?w1" using c by simp
        with ch True Some k show ?thesis by (simp add: Let_def)
      qed
    qed
  qed
qed

lemma cap_iteration_credit:
  assumes "cap_iteration env args dir w = (b, w')"
  shows "(if b then cap_credit env w else cap_credit env w - 1) \<le> cap_credit env w' \<and>
         checks w < checks w' \<and>
         (\<not> b \<longrightarrow> \<not> keep_running_predicate (keep_stressing_flag env (checks w' - 1))
                        (max_ops args) (counter w'))"
proof -
  let ?p1 = "snd (stress_capgetset_pid env args 1 False True w)"
  let ?w1 = "checked ?p1"
  let ?p2 = "snd (stress_capgetset_pid env args (pid args) True True ?w1)"
  let ?w2 = "checked ?p2"
  let ?p3 = "snd (stress_capgetset_pid env args (getppid env) False False ?w2)"
  let ?w3 = "checked ?p3"
  let ?w4 = "case dir of None \<Rightarrow> ?w3 | Some ds \<Rightarrow> cap_readdir_loop env args ds ?w3"
  note c1 = probe_checked_credit [of env args 1 False True w]
  note c2 = probe_checked_credit [of env args "pid args" True True ?w1]
  note c3 = probe_checked_credit [of env args "getppid env" False False ?w2]
  have ch1: "checks ?w1 = Suc (checks w)" by (simp add: checked_fields capgetset_fields)
  have ch2: "checks ?w2 = Suc (Suc (checks w))" by (simp add: checked_fields capgetset_fields)
  have ch3: "checks ?w3 = Suc (Suc (Suc (checks w)))" by (simp add: checked_fields capgetset_fields)
  show ?thesis
  proof (cases "keep_stressing env args ?p1")
    case False
    then have e: "b = False" "w' = ?w1"
      using assms by (simp_all add: cap_iteration_def)
    show ?thesis
      using c1 ch1 probe_checked_exit [OF False] by (simp add: e)
  next
    case k1: True
    have f1: "cap_credit env ?w1 = cap_credit env w"
      using c1 keep_stressing_flag_true [OF k1] by (simp add: capgetset_fields)
    show ?thesis
    proof (cases "keep_stressing env args ?p2")
      case False
      then have e: "b = False" "w' = ?w2"
        using assms k1 by (simp_all add: cap_iteration_def Let_def)
      show ?thesis
        using c2 f1 ch2 probe_checked_exit [OF False] by (simp add: e)
    next
      case k2: True
      have f2: "cap_credit env ?w2 = cap_credit env w"
        using c2 f1 keep_stressing_flag_true [OF k2] by (simp add: capgetset_fields checked_fields)
      show ?thesis
      proof (cases "keep_stressing env args ?p3")
        case False
        then have e: "b = False" "w' = ?w3"
          using assms k1 k2 by (simp_all add: cap_iteration_def Let_def)
        show ?thesis
          using c3 f2 ch3 probe_checked_exit [OF False] by (simp add: e)
      next
        case k3: True
        have f3: "cap_credit env ?w3 = cap_credit env w"
          using c3 f2 keep_stressing_flag_true [OF k3] by (simp add: capgetset_fields checked_fields)
        have r: "cap_credit env ?w3 - 1 \<le> cap_credit env ?w4 \<and> checks ?w3 \<le> checks ?w4"
          using cap_readdir_loop_credit [of env ?w3 args] by (cases dir) simp_all
        have e: "b = keep_stressing env args ?w4" "w' = checked ?w4"
          using assms k1 k2 k3 by (simp_all add: cap_iteration_def Let_def)
        have cr: "cap_credit env (checked ?w4) =
            cap_credit env ?w4 + (if keep_stressing_flag env (checks ?w4) then 1 else 0)"
          by (simp add: cap_credit_def checked_fields checked_probes flag_trues_Suc)
        have ex: "\<not> keep_stressing env args ?w4 \<Longrightarrow>
            \<not> keep_running_predicate (keep_stressing_flag env (checks (checked ?w4) - 1))
                 (max_ops args) (counter (checked ?w4))"
          by (simp add: keep_stressing_def keep_running_predicate_def checked_fields)
        show ?thesis
        proof (cases "keep_stressing env args ?w4")
          case True
          then have "keep_stressing_flag env (checks ?w4)" by (rule keep_stressing_flag_true)
          then show ?thesis
            using True r f3 cr ch3 unfolding e by (simp add: checked_fields)
        next
          case False
          then show ?thesis
            using r f3 cr ch3 ex [OF False] unfolding e by (simp add: checked_fields)
        qed
      qed
    qed
  qed
qed

lemma cap_loop_credit:
  "cap_loop env args dirs w = Some w' \<Longrightarrow>
   cap_credit env w - 1 \<le> cap_credit env w' \<and> checks w < checks w' \<and>
   \<not> keep_running_predicate (keep_stressing_flag env (checks w' - 1)) (max_ops args) (counter w')"
proof (induction dirs arbitrary: w)
  case Nil
  then show ?case by simp
next
  case (Cons dir dirs)
  obtain b w1 where it: "cap_iteration env args dir w = (b, w1)"
    by (cases "cap_iteration env args dir w")
  note step = cap_iteration_credit [OF it]
  show ?case
  proof (cases b)
    case False
    then have "w' = w1" using it Cons.prems by simp
    then show ?thesis using step False by simp
  next
    case True
    then have "cap_loop env args dirs w1 = Some w'" using it Cons.prems by simp
    from Cons.IH [OF this] step True show ?thesis by simp
  qed
qed

lemma stress_cap_evaluations:
  assumes "stress_cap env args dirs w = Some (rc, g)"
  shows "checks w < checks g"
    and "\<not> keep_running_predicate (keep_stressing_flag env (checks g - 1)) (max_ops args) (counter g)"
    and "length (probes g) \<le> 1 + length (filter (keep_stressing_flag env) [checks w..<checks g])"
proof -
  from assms obtain w' where l: "cap_loop env args dirs (cap_entry w) = Some w'"
    and g: "g = stress_set_proc_state STRESS_STATE_DEINIT w'"
    by (auto simp: stress_cap_eq)
  note c = cap_loop_credit [OF l]
  show lt: "checks w < checks g" using c by (simp add: g stress_set_proc_state_def cap_entry_fields)
  show "\<not> keep_running_predicate (keep_stressing_flag env (checks g - 1)) (max_ops args) (counter g)"
    using c by (simp add: g stress_set_proc_state_def)
  have "flag_trues env (checks g) =
      flag_trues env (checks w) + length (filter (keep_stressing_flag env) [checks w..<checks g])"
    using lt by (intro flag_trues_between) simp
  then show "length (probes g) \<le> 1 + length (filter (keep_stressing_flag env) [checks w..<checks g])"
    using c by (simp add: cap_credit_def g stress_set_proc_state_def cap_entry_fields)
qed

lemma cap_readdir_loop_flags:
  "\<forall>n. checks w \<le> n \<and> Suc n < checks (cap_readdir_loop env args ds w) \<longrightarrow>
       keep_stressing_flag env n"
proof (induction ds arbitrary: w)
  case Nil
  show ?case by auto
next
  case (Cons d ds)
  show ?case
  proof (cases "(case d of [] \<Rightarrow> False | c # _ \<Rightarrow> isdigit c)")
    case False
    then show ?thesis using Cons.IH [of w] by simp
  next
    case True
    show ?thesis
    proof (cases "sscanf_intmax d")
      case None
      then show ?thesis using True Cons.IH [of w] by simp
    next
      case (Some p)
      let ?w0 = "snd (stress_capgetset_pid env args (pid_t p) False False w)"
      let ?w1 = "checked ?w0"
      have ch: "checks ?w1 = Suc (checks w)" by (simp add: checked_fields capgetset_fields)
      show ?thesis
      proof (cases "keep_stressing env args ?w0")
        case k: False
        then have e: "cap_readdir_loop env args (d # ds) w = ?w1"
          using True Some by (simp add: Let_def)
        show ?thesis unfolding e ch by auto
      next
        case k: True
        then have f: "keep_stressing_flag env (checks w)"
          using keep_stressing_flag_true [OF k] by (simp add: capgetset_fields)
        have e: "cap_readdir_loop env args (d # ds) w = cap_readdir_loop env args ds ?w1"
          using True Some k by (simp add: Let_def)
        show ?thesis
        proof (intro allI impI)
          fix n assume n: "checks w \<le> n \<and> Suc n < checks (cap_readdir_loop env args (d # ds) w)"
          show "keep_stressing_flag env n"
          proof (cases "n = checks w")
            case True
            then show ?thesis using f by simp
          next
            case False
            then have "checks ?w1 \<le> n \<and> Suc n < checks (cap_readdir_loop env args ds ?w1)"
              using n ch e by simp
            then show ?thesis using Cons.IH [of ?w1] by blast
          qed
        qed
      qed
    qed
  qed
qed

lemma cap_iteration_flags:
  assumes "cap_iteration env args dir w = (b, w')"
  shows "(\<forall>n. checks w \<le> n \<and> n + 2 < checks w' \<longrightarrow> keep_stressing_flag env n) \<and>
         (b \<longrightarrow> keep_stressing_flag env (checks w' - 1)) \<and> checks w < checks w'"
proof -
  let ?p1 = "snd (stress_capgetset_pid env args 1 False True w)"
  let ?w1 = "checked ?p1"
  let ?p2 = "snd (stress_capgetset_pid env args (pid args) True True ?w1)"
  let ?w2 = "checked ?p2"
  let ?p3 = "snd (stress_capgetset_pid env args (getppid env) False False ?w2)"
  let ?w3 = "checked ?p3"
  let ?w4 = "case dir of None \<Rightarrow> ?w3 | Some ds \<Rightarrow> cap_readdir_loop env args ds ?w3"
  have ch1: "checks ?w1 = Suc (checks w)" by (simp add: checked_fields capgetset_fields)
  have ch2: "checks ?w2 = Suc (Suc (checks w))" by (simp add: checked_fields capgetset_fields)
  have ch3: "checks ?w3 = Suc (Suc (Suc (checks w)))" by (simp add: checked_fields capgetset_fields)
  show ?thesis
  proof (cases "keep_stressing env args ?p1")
    case False
    then have e: "b = False" "w' = ?w1"
      using assms by (simp_all add: cap_iteration_def)
    show ?thesis unfolding e ch1 by auto
  next
    case k1: True
    have f1: "keep_stressing_flag env (checks w)"
      using keep_stressing_flag_true [OF k1] by (simp add: capgetset_fields)
    show ?thesis
    proof (cases "keep_stressing env args ?p2")
      case False
      then have e: "b = False" "w' = ?w2"
        using assms k1 by (simp_all add: cap_iteration_def Let_def)
      show ?thesis unfolding e ch2 by auto
    next
      case k2: True
      have f2: "keep_stressing_flag env (Suc (checks w))"
        using keep_stressing_flag_true [OF k2] by (simp add: capgetset_fields checked_fields)
      show ?thesis
      proof (cases "keep_stressing env args ?p3")
        case False
        then have e: "b = False" "w' = ?w3"
          using assms k1 k2 by (simp_all add: cap_iteration_def Let_def)
        have "\<forall>n. checks w \<le> n \<and> n + 2 < checks ?w3 \<longrightarrow> keep_stressing_flag env n"
        proof (intro allI impI)
          fix n assume "checks w \<le> n \<and> n + 2 < checks ?w3"
          then have "n = checks w" unfolding ch3 by arith
          then show "keep_stressing_flag env n" using f1 by simp
        qed
        then show ?thesis unfolding e using ch3 by simp
      next
        case k3: True
        have f3: "keep_stressing_flag env (Suc (Suc (checks w)))"
          using keep_stressing_flag_true [OF k3] by (simp add: capgetset_fields checked_fields)
        have e: "b = keep_stressing env args ?w4" "w' = checked ?w4"
          using assms k1 k2 k3 by (simp_all add: cap_iteration_def Let_def)
        have r: "\<forall>n. checks ?w3 \<le> n \<and> Suc n < checks ?w4 \<longrightarrow> keep_stressing_flag env n"
          using cap_readdir_loop_flags [of ?w3 env args] by (cases dir) auto
        have le: "checks ?w3 \<le> checks ?w4"
          using cap_readdir_loop_credit [of env ?w3 args] by (cases dir) simp_all
        have ch4: "checks (checked ?w4) = Suc (checks ?w4)" by (simp add: checked_fields)
        have a: "\<forall>n. checks w \<le> n \<and> n + 2 < checks (checked ?w4) \<longrightarrow> keep_stressing_flag env n"
        proof (intro allI impI)
          fix n assume n: "checks w \<le> n \<and> n + 2 < checks (checked ?w4)"
          consider "n = checks w" | "n = Suc (checks w)" | "n = Suc (Suc (checks w))"
            | "checks ?w3 \<le> n \<and> Suc n < checks ?w4"
            using n ch3 ch4 by arith
          then show "keep_stressing_flag env n"
            using f1 f2 f3 r by cases blast+
        qed
        have b: "keep_stressing env args ?w4 \<longrightarrow> keep_stressing_flag env (checks (checked ?w4) - 1)"
          using keep_stressing_flag_true [of env args ?w4] ch4 by simp
        have c: "checks w < checks (checked ?w4)" using le ch3 ch4 by simp
        show ?thesis unfolding e using a b c by blast
      qed
    qed
  qed
qed

lemma cap_loop_cancelled:
  "\<not> keep_stressing_flag env (checks w + k) \<Longrightarrow> \<not> keep_stressing_flag env (checks w + k + 1) \<Longrightarrow>
   k < length dirs \<Longrightarrow>
   \<exists>w'. cap_loop env args dirs w = Some w' \<and> checks w' \<le> checks w + k + 2"
proof (induction dirs arbitrary: w k)
  case Nil
  then show ?case by simp
next
  case (Cons d ds)
  obtain b w1 where it: "cap_iteration env args d w = (b, w1)"
    by (cases "cap_iteration env args d w")
  note fl = cap_iteration_flags [OF it]
  show ?case
  proof (cases b)
    case False
    have "checks w1 \<le> checks w + k + 2"
    proof (rule ccontr)
      assume "\<not> checks w1 \<le> checks w + k + 2"
      then have "checks w \<le> checks w + k \<and> (checks w + k) + 2 < checks w1" by simp
      then have "keep_stressing_flag env (checks w + k)" using fl by blast
      then show False using Cons.prems(1) by simp
    qed
    then show ?thesis using it False by simp
  next
    case True
    have last: "keep_stressing_flag env (checks w1 - 1)" using fl True by blast
    have gt: "checks w < checks w1" using fl by blast
    have le: "checks w1 \<le> checks w + k"
    proof (rule ccontr)
      assume a: "\<not> checks w1 \<le> checks w + k"
      consider "(checks w + k) + 2 < checks w1" | "checks w + k = checks w1 - 1"
        | "checks w + k + 1 = checks w1 - 1"
        using a by arith
      then show False
      proof cases
        case 1
        then have "checks w \<le> checks w + k \<and> (checks w + k) + 2 < checks w1" by simp
        then have "keep_stressing_flag env (checks w + k)" using fl by blast
        then show False using Cons.prems(1) by simp
      next
        case 2
        then show False using last Cons.prems(1) by simp
      next
        case 3
        then show False using last Cons.prems(2) by simp
      qed
    qed
    define j where "j = checks w + k - checks w1"
    have j: "checks w1 + j = checks w + k" using le by (simp add: j_def)
    have f1: "\<not> keep_stressing_flag env (checks w1 + j)" using Cons.prems(1) j by simp
    have f2: "\<not> keep_stressing_flag env (checks w1 + j + 1)" using Cons.prems(2) j by simp
    have "j < length ds" using Cons.prems(3) gt j by simp
    from Cons.IH [OF f1 f2 this] obtain w' where
      "cap_loop env args ds w1 = Some w'" "checks w' \<le> checks w1 + j + 2" by blast
    then have "cap_loop env args (d # ds) w = Some w' \<and> checks w' \<le> checks w + k + 2"
      using it True j by simp
    then show ?thesis by blast
  qed
qed

lemma keep_stressing_below:
  "keep_stressing env args w \<Longrightarrow> max_ops args \<noteq> 0 \<Longrightarrow> counter w < max_ops args"
  by (simp add: keep_stressing_def)

lemma probed_ceiling:
  assumes "counter w < max_ops args"
  shows "counter (snd (stress_capgetset_pid env args p ds ex w)) \<le> max_ops args"
  using probed_below(2) [OF assms, of env p ds ex] by (simp add: word_le_nat_alt)

lemma cap_readdir_loop_ceiling:
  "max_ops args \<noteq> 0 \<Longrightarrow> counter w < max_ops args \<Longrightarrow>
   counter (cap_readdir_loop env args ds w) \<le> max_ops args"
proof (induction ds arbitrary: w)
  case Nil
  then show ?case by simp
next
  case (Cons d ds)
  show ?case
  proof (cases "(case d of [] \<Rightarrow> False | c # _ \<Rightarrow> isdigit c)")
    case False
    then show ?thesis using Cons.IH [OF Cons.prems] by simp
  next
    case True
    show ?thesis
    proof (cases "sscanf_intmax d")
      case None
      then show ?thesis using True Cons.IH [OF Cons.prems] by simp
    next
      case (Some p)
      let ?w0 = "snd (stress_capgetset_pid env args (pid_t p) False False w)"
      have le: "counter ?w0 \<le> max_ops args" using Cons.prems(2) by (rule probed_ceiling)
      show ?thesis
      proof (cases "keep_stressing env args ?w0")
        case k: False
        then have "cap_readdir_loop env args (d # ds) w = checked ?w0"
          using True Some by (simp add: Let_def)
        then show ?thesis using le by (simp add: checked_fields)
      next
        case k: True
        have "counter (checked ?w0) < max_ops args"
          using keep_stressing_below [OF k Cons.prems(1)] by (simp add: checked_fields)
        from Cons.IH [OF Cons.prems(1) this] show ?thesis
          using True Some k by (simp add: Let_def)
      qed
    qed
  qed
qed

lemma cap_iteration_ceiling:
  assumes "max_ops args \<noteq> 0" "counter w < max_ops args"
    and "cap_iteration env args dir w = (b, w')"
  shows "counter w' \<le> max_ops args \<and> (b \<longrightarrow> counter w' < max_ops args)"
proof -
  let ?p1 = "snd (stress_capgetset_pid env args 1 False True w)"
  let ?w1 = "checked ?p1"
  let ?p2 = "snd (stress_capgetset_pid env args (pid args) True True ?w1)"
  let ?w2 = "checked ?p2"
  let ?p3 = "snd (stress_capgetset_pid env args (getppid env) False False ?w2)"
  let ?w3 = "checked ?p3"
  let ?w4 = "case dir of None \<Rightarrow> ?w3 | Some ds \<Rightarrow> cap_readdir_loop env args ds ?w3"
  have l1: "counter ?p1 \<le> max_ops args" using assms(2) by (rule probed_ceiling)
  show ?thesis
  proof (cases "keep_stressing env args ?p1")
    case False
    then have e: "b = False" "w' = ?w1"
      using assms(3) by (simp_all add: cap_iteration_def)
    show ?thesis using l1 by (simp add: e checked_fields)
  next
    case k1: True
    have "counter ?w1 < max_ops args"
      using keep_stressing_below [OF k1 assms(1)] by (simp add: checked_fields)
    then have l2: "counter ?p2 \<le> max_ops args" by (rule probed_ceiling)
    show ?thesis
    proof (cases "keep_stressing env args ?p2")
      case False
      then have e: "b = False" "w' = ?w2"
        using assms(3) k1 by (simp_all add: cap_iteration_def Let_def)
      show ?thesis using l2 by (simp add: e checked_fields)
    next
      case k2: True
      have "counter ?w2 < max_ops args"
        using keep_stressing_below [OF k2 assms(1)] by (simp add: checked_fields)
      then have l3: "counter ?p3 \<le> max_ops args" by (rule probed_ceiling)
      show ?thesis
      proof (cases "keep_stressing env args ?p3")
        case False
        then have e: "b = False" "w' = ?w3"
          using assms(3) k1 k2 by (simp_all add: cap_iteration_def Let_def)
        show ?thesis using l3 by (simp add: e checked_fields)
      next
        case k3: True
        have b3: "counter ?w3 < max_ops args"
          using keep_stressing_below [OF k3 assms(1)] by (simp add: checked_fields)
        have l4: "counter ?w4 \<le> max_ops args"
          using cap_readdir_loop_ceiling [OF assms(1) b3, of env] b3 by (cases dir) simp_all
        have e: "b = keep_stressing env args ?w4" "w' = checked ?w4"
          using assms(3) k1 k2 k3 by (simp_all add: cap_iteration_def Let_def)
        have "keep_stressing env args ?w4 \<longrightarrow> counter ?w4 < max_ops args"
          using keep_stressing_below [OF _ assms(1), of env ?w4] by blast
        then show ?thesis using l4 unfolding e by (simp add: checked_fields)
      qed
    qed
  qed
qed

lemma cap_loop_ceiling:
  "cap_loop env args dirs w = Some w' \<Longrightarrow> max_ops args \<noteq> 0 \<Longrightarrow> counter w < max_ops args \<Longrightarrow>
   counter w' \<le> max_ops args"
proof (induction dirs arbitrary: w)
  case Nil
  then show ?case by simp
next
  case (Cons d ds)
  obtain b w1 where it: "cap_iteration env args d w = (b, w1)"
    by (cases "cap_iteration env args d w")
  note c = cap_iteration_ceiling [OF Cons.prems(2,3) it]
  show ?case
  proof (cases b)
    case False
    then show ?thesis using Cons.prems(1) it c by simp
  next
    case True
    then have "cap_loop env args ds w1 = Some w'" using Cons.prems(1) it by simp
    moreover have "counter w1 < max_ops args" using c True by blast
    ultimately show ?thesis using Cons.IH Cons.prems(2) by blast
  qed
qed

lemma stress_cap_ceiling:
  assumes "stress_cap env args dirs w = Some (rc, g)" "max_ops args \<noteq> 0" "counter w < max_ops args"
  shows "counter g \<le> max_ops args"
proof -
  from assms(1) obtain w' where l: "cap_loop env args dirs (cap_entry w) = Some w'"
    and g: "g = stress_set_proc_state STRESS_STATE_DEINIT w'"
    by (auto simp: stress_cap_eq)
  have "counter (cap_entry w) < max_ops args" using assms(3) by (simp add: cap_entry_fields)
  from cap_loop_ceiling [OF l assms(2) this] show ?thesis
    by (simp add: g stress_set_proc_state_def)
qed

lemma stress_cap_cancelled:
  assumes "\<not> keep_stressing_flag env (checks w + k)" "\<not> keep_stressing_flag env (checks w + k + 1)"
    and "k < length dirs"
  shows "\<exists>g. stress_cap env args dirs w = Some (EXIT_SUCCESS, g) \<and> checks g \<le> checks w + k + 2"
proof -
  have "\<not> keep_stressing_flag env (checks (cap_entry w) + k)"
    "\<not> keep_stressing_flag env (checks (cap_entry w) + k + 1)"
    using assms by (simp_all add: cap_entry_fields)
  from cap_loop_cancelled [OF this assms(3), of args] obtain w' where
    "cap_loop env args dirs (cap_entry w) = Some w'" "checks w' \<le> checks w + k + 2"
    by (auto simp: cap_entry_fields)
  then show ?thesis by (simp add: stress_cap_eq stress_set_proc_state_def)
qed

subsection \<open>Where the watchdog stressor evaluates the predicate\<close>

lemma watchdog_loop_evaluations:
  "watchdog_loop env args evs w = Some (rc, g) \<Longrightarrow>
   checks w < checks g \<and>
   (\<forall>n. checks w \<le> n \<and> Suc n < checks g \<longrightarrow> keep_stressing_flag env n) \<and>
   (rc = EXIT_SUCCESS \<and> list_all (\<lambda>e. \<not> is_signal e) evs \<longrightarrow>
      \<not> keep_running_predicate (keep_stressing_flag env (checks g - 1)) (max_ops args) (counter g))"
proof (induction evs arbitrary: w)
  case Nil
  then show ?case
    by (auto simp: stress_set_proc_state_def checked_def keep_stressing_def
        keep_running_predicate_def split: if_splits)
next
  case (Cons e es)
  show ?case
  proof (cases "keep_stressing env args w")
    case False
    then show ?thesis using Cons.prems
      by (auto simp: stress_set_proc_state_def checked_def keep_stressing_def
          keep_running_predicate_def)
  next
    case True
    then have f: "keep_stressing_flag env (checks w)" by (rule keep_stressing_flag_true)
    obtain pe w1 where p: "watchdog_pass env args e (checked w) = (pe, w1)"
      by (cases "watchdog_pass env args e (checked w)")
    note fr = watchdog_pass_frame [OF p] and en = watchdog_pass_end [OF p]
    have ch: "checks w1 = Suc (checks w)" using fr by (simp add: checked_fields)
    show ?thesis
    proof (cases pe)
      case Next
      then have run: "watchdog_loop env args es w1 = Some (rc, g)" using Cons.prems True p by simp
      note ih = Cons.IH [OF run]
      have "\<forall>n. checks w \<le> n \<and> Suc n < checks g \<longrightarrow> keep_stressing_flag env n"
      proof (intro allI impI)
        fix n assume n: "checks w \<le> n \<and> Suc n < checks g"
        show "keep_stressing_flag env n"
        proof (cases "n = checks w")
          case True
          then show ?thesis using f by simp
        next
          case False
          then have "checks w1 \<le> n \<and> Suc n < checks g" using n ch by simp
          then show ?thesis using ih by blast
        qed
      qed
      moreover have "\<not> is_signal e" using en Next by simp
      ultimately show ?thesis using ih ch by simp
    next
      case (Break x)
      then have x: "x = EXIT_FAILURE" using en by simp
      have "rc = EXIT_FAILURE" "g = stress_set_proc_state STRESS_STATE_DEINIT w1"
        using Cons.prems True p Break x by simp_all
      then show ?thesis using ch f by (auto simp: stress_set_proc_state_def)
    next
      case Jumped
      then have "is_signal e" using en by simp
      moreover have "g = w1" using Cons.prems True p Jumped by simp
      ultimately show ?thesis using ch f by auto
    qed
  qed
qed

lemma watchdog_loop_cancelled:
  "\<not> keep_stressing_flag env (checks w + k) \<Longrightarrow> k \<le> length evs \<Longrightarrow>
   \<exists>rc g. watchdog_loop env args evs w = Some (rc, g) \<and> checks g \<le> checks w + k + 1"
proof (induction evs arbitrary: w k)
  case Nil
  then have "\<not> keep_stressing env args w" by (simp add: keep_stressing_def)
  then show ?case by (simp add: stress_set_proc_state_def checked_def)
next
  case (Cons e es)
  show ?case
  proof (cases "keep_stressing env args w")
    case False
    then show ?thesis by (simp add: stress_set_proc_state_def checked_def)
  next
    case True
    then have "keep_stressing_flag env (checks w)" by (rule keep_stressing_flag_true)
    then have "k \<noteq> 0" using Cons.prems(1) by (cases k) simp_all
    then obtain j where k: "k = Suc j" by (cases k) simp_all
    obtain pe w1 where p: "watchdog_pass env args e (checked w) = (pe, w1)"
      by (cases "watchdog_pass env args e (checked w)")
    note fr = watchdog_pass_frame [OF p]
    have ch: "checks w1 = Suc (checks w)" using fr by (simp add: checked_fields)
    show ?thesis
    proof (cases pe)
      case Next
      have f: "\<not> keep_stressing_flag env (checks w1 + j)" using Cons.prems(1) k ch by simp
      have "j \<le> length es" using Cons.prems(2) k by simp
      from Cons.IH [OF f this] obtain rc g where
        "watchdog_loop env args es w1 = Some (rc, g)" "checks g \<le> checks w1 + j + 1" by blast
      then have "watchdog_loop env args (e # es) w = Some (rc, g) \<and> checks g \<le> checks w + k + 1"
        using True p Next k ch by (simp del: watchdog_pass.simps)
      then show ?thesis by blast
    next
      case (Break x)
      then have "watchdog_loop env args (e # es) w
          = Some (x, stress_set_proc_state STRESS_STATE_DEINIT w1)"
        using True p by (simp del: watchdog_pass.simps)
      moreover have "checks (stress_set_proc_state STRESS_STATE_DEINIT w1) \<le> checks w + k + 1"
        using ch by (simp add: stress_set_proc_state_def)
      ultimately show ?thesis by blast
    next
      case Jumped
      then have "watchdog_loop env args (e # es) w = Some (EXIT_SUCCESS, w1)"
        using True p by (simp del: watchdog_pass.simps)
      moreover have "checks w1 \<le> checks w + k + 1" using ch by simp
      ultimately show ?thesis by blast
    qed
  qed
qed

lemma stress_watchdog_cancelled:
  assumes "list_all (\<lambda>ok. ok) (sighandler_results env)" "access_result env = ACCESS_OK"
    and "\<not> keep_stressing_flag env (checks w + k)" "k \<le> length evs"
  shows "\<exists>rc g. stress_watchdog env args evs w = Some (rc, g) \<and> checks g \<le> checks w + k + 1"
proof -
  have "\<not> keep_stressing_flag env (checks (watchdog_entry w) + k)"
    using assms(3) by (simp add: watchdog_entry_fields)
  from watchdog_loop_cancelled [OF this assms(4), of args]
  show ?thesis by (simp add: stress_watchdog_running [OF assms(1,2)] watchdog_entry_fields)
qed

subsection \<open>Whole runs of the context stressor and the predicate\<close>

lemma loop_entry_swaps: "swaps (loop_entry env args w) = 0"
proof -
  obtain ok g' where r: "context_init_loop env args [0..<STRESS_CONTEXTS] (context_setup args w) = (ok, g')"
    by (cases "context_init_loop env args [0..<STRESS_CONTEXTS] (context_setup args w)")
  have "swaps (context_setup args w) = 0"
    by (simp add: context_setup_def context_statics_def worker.defs context_worker.defs)
  with context_init_loop_frame [OF r] show ?thesis
    by (simp add: loop_entry_def r stress_set_proc_state_def)
qed

lemma canary_loop_threads:
  "started (canary_loop args ds g) = started g \<and> swaps (canary_loop args ds g) = swaps g"
  by (induction ds arbitrary: g) (simp_all add: canary_check_def pr_fail_def Let_def)

lemma context_finish_threads:
  "started (snd (context_finish env args g)) = started g"
  "swaps (snd (context_finish env args g)) = swaps g"
  by (simp_all add: context_finish_def Let_def canary_loop_threads stress_set_proc_state_def
      set_counter_def)

lemma stress_context_cancelled:
  assumes "setup_succeeds env" "\<not> keep_stressing_flag env (checks w + k)" "k + 3 \<le> fuel"
  shows "\<exists>g. stress_context fuel env args w = Some (EXIT_SUCCESS, g) \<and> checks g \<le> checks w + k + 1"
proof -
  let ?e = "loop_entry env args w"
  have ok: "started_ok ?e" by (simp add: started_ok_def loop_entry_fields)
  have f: "\<not> keep_stressing_flag env (checks ?e + k)" using assms(2) by (simp add: loop_entry_fields)
  have "k + 4 \<le> fuel + length (started ?e)" using assms(3) by (simp add: loop_entry_fields)
  from stress_threads_cancelled [OF f ok _ this, of 0] obtain g' where
    run: "stress_threads fuel env 0 ?e = Some g'" and c: "checks g' \<le> checks w + k + 1"
    by (auto simp: loop_entry_fields)
  have "stress_context fuel env args w = Some (context_finish env args g')"
    using run by (simp add: stress_context_loop [OF assms(1)])
  moreover have "context_finish env args g' = (EXIT_SUCCESS, snd (context_finish env args g'))"
    by (simp add: prod_eq_iff context_finish_fields)
  ultimately have "stress_context fuel env args w = Some (EXIT_SUCCESS, snd (context_finish env args g'))"
    by simp
  then show ?thesis using c by (auto simp: context_finish_fields)
qed

lemma stress_context_evaluations:
  assumes "stress_context fuel env args w = Some (EXIT_SUCCESS, g)"
  shows "checks w < checks g"
    and "checks g + length (started g) = checks w + swaps g + 1"
    and "1 \<le> length (started g)" "length (started g) \<le> 3"
    and "context_counter g = of_nat (swaps g)"
    and "\<not> keep_running_predicate (keep_stressing_flag env (checks g - 1)) (max_ops args * 1000)
           (context_counter g)"
    and "\<forall>n. checks w \<le> n \<and> Suc n < checks g \<longrightarrow> keep_stressing_flag env n"
    and "max_ops args * 1000 \<noteq> 0 \<longrightarrow>
           unat (context_counter g) \<le> unat (max_ops args * 1000) + 2"
proof -
  let ?e = "loop_entry env args w"
  from stress_context_success [OF assms] obtain g3 where
    run: "stress_threads fuel env 0 ?e = Some g3"
    and fin: "(EXIT_SUCCESS, g) = context_finish env args g3" by blast
  have g: "g = snd (context_finish env args g3)" using fin by (simp add: prod_eq_iff)
  have ok: "started_ok ?e" by (simp add: started_ok_def loop_entry_fields)
  note c = stress_threads_count [OF run ok, simplified loop_entry_fields loop_entry_swaps]
  note x = stress_threads_exit [OF run, simplified loop_entry_fields]
  show "checks w < checks g" using x by (simp add: g context_finish_fields)
  show "checks g + length (started g) = checks w + swaps g + 1"
    using c by (simp add: g context_finish_fields context_finish_threads)
  show "1 \<le> length (started g)" using c by (simp add: g context_finish_threads)
  show "length (started g) \<le> 3" using c by (simp add: g context_finish_threads)
  show "context_counter g = of_nat (swaps g)"
    using c by (simp add: g context_finish_fields context_finish_threads)
  have "stress_max_ops g3 = max_ops args * 1000"
    using stress_threads_worker [OF run] by (simp add: loop_entry_fields)
  then show "\<not> keep_running_predicate (keep_stressing_flag env (checks g - 1)) (max_ops args * 1000)
           (context_counter g)"
    using x by (simp add: g context_finish_fields)
  show "\<forall>n. checks w \<le> n \<and> Suc n < checks g \<longrightarrow> keep_stressing_flag env n"
    using x by (simp add: g context_finish_fields)
  show "max_ops args * 1000 \<noteq> 0 \<longrightarrow>
           unat (context_counter g) \<le> unat (max_ops args * 1000) + 2"
  proof
    assume m: "max_ops args * 1000 \<noteq> 0"
    from stress_threads_upper [OF run loop_entry_inv [OF m]]
    show "unat (context_counter g) \<le> unat (max_ops args * 1000) + 2"
      by (simp add: g context_finish_fields loop_entry_fields)
  qed
qed

subsection \<open>Runs in which the flag is cleared\<close>

lemma stopping_context_env_ok: "setup_succeeds stopping_context_env"
  by (simp add: stopping_context_env_def quiet_context_env_def setup_succeeds_def list_all_iff)

lemma stopping_watchdog_env_ok:
  "list_all (\<lambda>ok. ok) (sighandler_results stopping_watchdog_env)"
  "access_result stopping_watchdog_env = ACCESS_OK"
  by (simp_all add: stopping_watchdog_env_def quiet_watchdog_env_def list_all_iff)

lemma stopping_context_env_fields:
  "keep_stressing_flag stopping_context_env n = (n < 2)" "swap_ok stopping_context_env n"
  by (simp_all add: stopping_context_env_def quiet_context_env_def)

lemma stopping_watchdog_env_fields:
  "keep_stressing_flag stopping_watchdog_env n = (n < 2)" "write_result stopping_watchdog_env n = 1"
  by (simp_all add: stopping_watchdog_env_def quiet_watchdog_env_def)

lemma stopping_context_run:
  "map_option (\<lambda>(rc, g). (rc, checks g, swaps g, started g, context_counter g, counter g))
     (stress_context 5 stopping_context_env (example_args ''context'' 0) fresh_worker)
   = Some (EXIT_SUCCESS, 3, 5, [2, 1, 0], 5, 0)"
proof -
  let ?e = "loop_entry stopping_context_env (example_args ''context'' 0) fresh_worker"
  have five: "(5 :: nat) = Suc (Suc (Suc (Suc (Suc 0))))" by simp
  have "\<exists>g. stress_threads 5 stopping_context_env 0 ?e = Some g \<and> checks g = 3 \<and> swaps g = 5 \<and>
          started g = [2, 1, 0] \<and> context_counter g = 5"
    unfolding five
    by (simp add: stress_threads_Suc thread_count_def next_thread_def context_loop_condition_def
        checked_def STRESS_CONTEXTS_def loop_entry_fields loop_entry_swaps example_args_fields
        stopping_context_env_fields fresh_worker_fields del: stress_threads.simps)
  then obtain g where g: "stress_threads 5 stopping_context_env 0 ?e = Some g" "checks g = 3"
    "swaps g = 5" "started g = [2, 1, 0]" "context_counter g = 5" by blast
  show ?thesis
    by (simp add: stress_context_loop [OF stopping_context_env_ok] g split_def
        context_finish_fields context_finish_threads)
qed

lemma stopping_cap_run:
  "map_option (\<lambda>(rc, g). (rc, checks g, length (probes g), counter g))
     (stress_cap stopping_cap_env (example_args ''cap'' 0) (replicate 3 None) fresh_worker)
   = Some (EXIT_SUCCESS, 3, 3, 3)"
  by (simp add: stress_cap_eq eval_nat_numeral cap_iteration_def Let_def keep_stressing_def
      capgetset_fields checked_fields checked_probes cap_entry_fields stress_set_proc_state_def
      stopping_cap_env_def quiet_cap_env_def fresh_worker_fields example_args_fields split_def)

lemma stopping_watchdog_run:
  "map_option (\<lambda>(rc, g). (rc, checks g, counter g))
     (stress_watchdog stopping_watchdog_env (example_args ''watchdog'' 0)
        [Open_ok 3 True, Open_ok 3 True] fresh_worker)
   = Some (EXIT_SUCCESS, 3, 2)"
  by (simp add: stress_watchdog_running [OF stopping_watchdog_env_ok] keep_stressing_def
      stopping_watchdog_env_fields example_args_fields checked_fields inc_counter_def
      sys_fields watchdog_entry_fields fresh_worker_fields watchdog_opened_fields
      stress_set_proc_state_def split_def)


section \<open>The claims\<close>

subsection \<open>C1: the operation ceiling\<close>

text \<open>
  Claim C1 says that every workload run with a positive ceiling \<open>C\<close> and the flag held
  true terminates with a final counter that never exceeds \<open>C\<close> and equals \<open>C\<close>. As
  stated it fails twice. The watchdog stressor leaves its loop with \<^verbatim>\<open>EXIT_FAILURE\<close> and
  a counter of 0 when \<^verbatim>\<open>close\<close> fails in the first pass; and the context stressor scales
  the ceiling in 64 bits, so that the ceiling \<open>2^61 + 1\<close> becomes the internal ceiling
  1000 and the run ends with the counter 1. (Two runs that never end are
  \<open>stress_context_wrapped_ceiling\<close>, where the ceiling \<open>2^61\<close> becomes 0, and
  \<open>stress_watchdog_busy_forever\<close>, where the device stays busy.)
\<close>

theorem C1_ceiling_counterexample:
  "map_option fst
     (stress_watchdog quiet_watchdog_env (example_args ''watchdog'' 1) [Open_ok 3 False] fresh_worker)
   = Some EXIT_FAILURE \<and>
   map_option (counter \<circ> snd)
     (stress_watchdog quiet_watchdog_env (example_args ''watchdog'' 1) [Open_ok 3 False] fresh_worker)
   = Some 0 \<and>
   map_option (counter \<circ> snd)
     (stress_context 1002 quiet_context_env (example_args ''context'' (2 ^ 61 + 1)) fresh_worker)
   = Some 1 \<and>
   (1 :: u64) \<noteq> 2 ^ 61 + 1"
proof -
  let ?args = "example_args ''context'' (2 ^ 61 + 1)"
  have m: "max_ops ?args * 1000 = 1000" by (simp add: example_args_def)
  have nz: "max_ops ?args * 1000 \<noteq> 0" unfolding m by simp
  have "unat (max_ops ?args * 1000) + 2 \<le> 1002" unfolding m by simp
  from stress_context_run [OF quiet_context_env_ok nz this, of fresh_worker]
  obtain g where g: "stress_context 1002 quiet_context_env ?args fresh_worker = Some (EXIT_SUCCESS, g)"
    "unat (max_ops ?args * 1000) \<le> unat (context_counter g)"
    "unat (context_counter g) \<le> unat (max_ops ?args * 1000) + 2"
    "counter g = context_counter g div 1000"
    by blast
  have "unat (context_counter g div 1000) = unat (context_counter g) div 1000"
    by (simp add: unat_div)
  also have "\<dots> = 1" using g(2,3) unfolding m by simp
  finally have "context_counter g div 1000 = 1" by (simp add: word_unat_eq_iff)
  then have c: "map_option (counter \<circ> snd)
     (stress_context 1002 quiet_context_env ?args fresh_worker) = Some 1"
    using g(1,4) by simp
  have w: "stress_watchdog quiet_watchdog_env (example_args ''watchdog'' 1) [Open_ok 3 False] fresh_worker
      = Some (EXIT_FAILURE, pr_fail (example_args ''watchdog'' 1) ''cannot close %s, errno=%d (%s)''
          (stress_set_proc_state STRESS_STATE_DEINIT
            ((watchdog_opened quiet_watchdog_env 3 (checked (watchdog_entry fresh_worker)))\<lparr>fd := - 1\<rparr>)))"
    by (simp add: watchdog_run_simps keep_stressing_def quiet_watchdog_env_ok watchdog_entry_fields
        fresh_worker_fields example_args_fields checked_fields Let_def pr_fail_def
        stress_set_proc_state_def)
  show ?thesis
    using c by (simp add: w pr_fail_def stress_set_proc_state_def watchdog_opened_fields
        checked_fields watchdog_entry_fields fresh_worker_fields)
qed

text \<open>
  C1 as amended. Ceiling \<open>C > 0\<close>, flag true at every reading.
  \<^item> The context stressor, when \<open>1000 * C\<close> fits 64 bits and its set-up succeeds: with
    enough fuel the run returns \<^verbatim>\<open>EXIT_SUCCESS\<close> and the final counter is exactly \<open>C\<close>.
  \<^item> The capability stressor, started with counter 0: given the directory listings of
    \<open>C\<close> passes the run returns \<^verbatim>\<open>EXIT_SUCCESS\<close> and the final counter is exactly \<open>C\<close>.
  \<^item> The watchdog stressor, started with counter 0: the final counter never exceeds \<open>C\<close>
    (whatever the flag and the events); it is exactly \<open>C\<close> whenever the run returns
    \<^verbatim>\<open>EXIT_SUCCESS\<close> from an accessible device without a signal; and the run does return
    so when every \<^verbatim>\<open>open\<close> and \<^verbatim>\<open>close\<close> of \<open>C\<close> passes succeeds.
\<close>

theorem C1_ceiling_reached_amended:
  "(setup_succeeds cenv \<and> (\<forall>n. keep_stressing_flag cenv n) \<and> max_ops args \<noteq> 0 \<and>
    unat (max_ops args) * 1000 < 2 ^ 64 \<and> unat (max_ops args) * 1000 + 2 \<le> fuel \<longrightarrow>
      (\<exists>g. stress_context fuel cenv args w = Some (EXIT_SUCCESS, g) \<and> counter g = max_ops args)) \<and>
   ((\<forall>n. keep_stressing_flag kenv n) \<and> max_ops args \<noteq> 0 \<and> counter w = 0 \<and>
    unat (max_ops args) \<le> length dirs \<longrightarrow>
      (\<exists>g. stress_cap kenv args dirs w = Some (EXIT_SUCCESS, g) \<and> counter g = max_ops args)) \<and>
   (max_ops args \<noteq> 0 \<and> counter w = 0 \<and> stress_watchdog wenv args evs w = Some (rc, g') \<longrightarrow>
      counter g' \<le> max_ops args) \<and>
   ((\<forall>n. keep_stressing_flag wenv n) \<and> max_ops args \<noteq> 0 \<and> counter w = 0 \<and>
    list_all (\<lambda>ok. ok) (sighandler_results wenv) \<and> access_result wenv = ACCESS_OK \<and>
    list_all (\<lambda>e. \<not> is_signal e) evs \<and>
    stress_watchdog wenv args evs w = Some (EXIT_SUCCESS, g') \<longrightarrow> counter g' = max_ops args) \<and>
   ((\<forall>n. keep_stressing_flag wenv n) \<and> max_ops args \<noteq> 0 \<and> counter w = 0 \<and>
    list_all (\<lambda>ok. ok) (sighandler_results wenv) \<and> access_result wenv = ACCESS_OK \<and>
    unat (max_ops args) \<le> length ds \<longrightarrow>
      (\<exists>g. stress_watchdog wenv args (map (\<lambda>d. Open_ok d True) ds) w = Some (EXIT_SUCCESS, g) \<and>
           counter g = max_ops args))"
proof (intro conjI impI)
  assume "setup_succeeds cenv \<and> (\<forall>n. keep_stressing_flag cenv n) \<and> max_ops args \<noteq> 0 \<and>
    unat (max_ops args) * 1000 < 2 ^ 64 \<and> unat (max_ops args) * 1000 + 2 \<le> fuel"
  then show "\<exists>g. stress_context fuel cenv args w = Some (EXIT_SUCCESS, g) \<and> counter g = max_ops args"
    by (intro stress_context_exact) blast+
next
  assume "(\<forall>n. keep_stressing_flag kenv n) \<and> max_ops args \<noteq> 0 \<and> counter w = 0 \<and>
    unat (max_ops args) \<le> length dirs"
  then show "\<exists>g. stress_cap kenv args dirs w = Some (EXIT_SUCCESS, g) \<and> counter g = max_ops args"
    by (intro stress_cap_exact) blast+
next
  assume a: "max_ops args \<noteq> 0 \<and> counter w = 0 \<and> stress_watchdog wenv args evs w = Some (rc, g')"
  show "counter g' \<le> max_ops args"
  proof (cases "list_all (\<lambda>ok. ok) (sighandler_results wenv) \<and> access_result wenv = ACCESS_OK")
    case True
    then have "watchdog_loop wenv args evs (watchdog_entry w) = Some (rc, g')"
      using a by (simp add: stress_watchdog_running)
    from watchdog_loop_ceiling [OF this] a show ?thesis by (simp add: watchdog_entry_fields)
  next
    case False
    from stress_watchdog_early [OF False, of args evs w] a show ?thesis by auto
  qed
next
  assume a: "(\<forall>n. keep_stressing_flag wenv n) \<and> max_ops args \<noteq> 0 \<and> counter w = 0 \<and>
    list_all (\<lambda>ok. ok) (sighandler_results wenv) \<and> access_result wenv = ACCESS_OK \<and>
    list_all (\<lambda>e. \<not> is_signal e) evs \<and>
    stress_watchdog wenv args evs w = Some (EXIT_SUCCESS, g')"
  then have "stress_watchdog wenv args evs w = watchdog_loop wenv args evs (watchdog_entry w)"
    by (intro stress_watchdog_running) blast+
  then have "watchdog_loop wenv args evs (watchdog_entry w) = Some (EXIT_SUCCESS, g')"
    using a by simp
  from watchdog_loop_normal_exit [OF this] a show "counter g' = max_ops args"
    by (simp add: watchdog_entry_fields)
next
  assume a: "(\<forall>n. keep_stressing_flag wenv n) \<and> max_ops args \<noteq> 0 \<and> counter w = 0 \<and>
    list_all (\<lambda>ok. ok) (sighandler_results wenv) \<and> access_result wenv = ACCESS_OK \<and>
    unat (max_ops args) \<le> length ds"
  then have "\<exists>g. watchdog_loop wenv args (map (\<lambda>d. Open_ok d True) ds) (watchdog_entry w)
                 = Some (EXIT_SUCCESS, g) \<and> counter g = max_ops args"
    by (intro watchdog_loop_all_ok) (simp_all add: watchdog_entry_fields)
  moreover have "stress_watchdog wenv args (map (\<lambda>d. Open_ok d True) ds) w
      = watchdog_loop wenv args (map (\<lambda>d. Open_ok d True) ds) (watchdog_entry w)"
    using a by (intro stress_watchdog_running) blast+
  ultimately show "\<exists>g. stress_watchdog wenv args (map (\<lambda>d. Open_ok d True) ds) w = Some (EXIT_SUCCESS, g) \<and>
           counter g = max_ops args"
    by simp
qed

text \<open>
  The amended statement at work: the context stressor with the ceiling 5000, the
  capability stressor with the ceiling 4, the watchdog stressor with the ceiling 2.
\<close>

theorem C1_ceiling_reached_witness:
  "(\<exists>g. stress_context 5000002 quiet_context_env (example_args ''context'' 5000) fresh_worker
          = Some (EXIT_SUCCESS, g) \<and> counter g = 5000) \<and>
   (\<exists>g. stress_cap quiet_cap_env (example_args ''cap'' 4) (replicate 4 (Some [''1'', ''self''])) fresh_worker
          = Some (EXIT_SUCCESS, g) \<and> counter g = 4) \<and>
   (\<exists>g. stress_watchdog quiet_watchdog_env (example_args ''watchdog'' 2)
           (map (\<lambda>d. Open_ok d True) [3, 3]) fresh_worker
          = Some (EXIT_SUCCESS, g) \<and> counter g = 2 \<and> counter g \<le> 2)"
proof -
  let ?evs = "map (\<lambda>d. Open_ok d True) [3, 3]"
  note t1 = C1_ceiling_reached_amended [where cenv = quiet_context_env
      and args = "example_args ''context'' 5000" and fuel = 5000002 and w = fresh_worker,
      THEN conjunct1]
  note t2 = C1_ceiling_reached_amended [where kenv = quiet_cap_env
      and args = "example_args ''cap'' 4" and w = fresh_worker
      and dirs = "replicate 4 (Some [''1'', ''self''])", THEN conjunct2, THEN conjunct1]
  note t5 = C1_ceiling_reached_amended [where wenv = quiet_watchdog_env
      and args = "example_args ''watchdog'' 2" and w = fresh_worker and ds = "[3, 3]",
      THEN conjunct2, THEN conjunct2, THEN conjunct2, THEN conjunct2]
  from t5 obtain g where g: "stress_watchdog quiet_watchdog_env (example_args ''watchdog'' 2) ?evs
      fresh_worker = Some (EXIT_SUCCESS, g)"
    by (auto simp: quiet_watchdog_env_ok example_args_fields fresh_worker_fields)
  note t3 = C1_ceiling_reached_amended [where wenv = quiet_watchdog_env
      and args = "example_args ''watchdog'' 2" and w = fresh_worker and evs = ?evs
      and rc = EXIT_SUCCESS and g' = g, THEN conjunct2, THEN conjunct2, THEN conjunct1]
  note t4 = C1_ceiling_reached_amended [where wenv = quiet_watchdog_env
      and args = "example_args ''watchdog'' 2" and w = fresh_worker and evs = ?evs
      and g' = g, THEN conjunct2, THEN conjunct2, THEN conjunct2, THEN conjunct1]
  have "counter g \<le> 2"
    using t3 g by (simp add: example_args_fields fresh_worker_fields)
  moreover have "counter g = 2"
    using t4 g by (simp add: quiet_watchdog_env_ok example_args_fields fresh_worker_fields)
  ultimately have "\<exists>g. stress_watchdog quiet_watchdog_env (example_args ''watchdog'' 2) ?evs
      fresh_worker = Some (EXIT_SUCCESS, g) \<and> counter g = 2 \<and> counter g \<le> 2"
    using g by blast
  then show ?thesis
    using t1 t2
    by (simp add: quiet_context_env_ok quiet_cap_env_ok example_args_fields fresh_worker_fields)
qed

subsection \<open>C2: DEINIT before every return\<close>

text \<open>
  Claim C2 says that once \<^verbatim>\<open>RUN\<close> has been announced no return skips \<^verbatim>\<open>DEINIT\<close>, also on
  the paths through the signal layer. Two returns do skip it: the watchdog stressor's
  return behind \<^verbatim>\<open>sigsetjmp\<close> after a signal, and the context stressor's \<^verbatim>\<open>goto fail\<close>
  when the first \<^verbatim>\<open>swapcontext\<close> fails. Both runs end with \<^verbatim>\<open>RUN\<close> as the last state.
\<close>

theorem C2_deinit_counterexample:
  "map_option (proc_states \<circ> snd)
     (stress_watchdog quiet_watchdog_env (example_args ''watchdog'' 0) [Signal_while_open 3 0]
        fresh_worker)
   = Some [STRESS_STATE_RUN] \<and>
   map_option fst
     (stress_context 10 (quiet_context_env\<lparr>start_ok := False\<rparr>) (example_args ''context'' 0)
        fresh_worker)
   = Some EXIT_FAILURE \<and>
   map_option (proc_states \<circ> snd)
     (stress_context 10 (quiet_context_env\<lparr>start_ok := False\<rparr>) (example_args ''context'' 0)
        fresh_worker)
   = Some [STRESS_STATE_RUN]"
proof -
  have w: "map_option (proc_states \<circ> snd)
     (stress_watchdog quiet_watchdog_env (example_args ''watchdog'' 0) [Signal_while_open 3 0]
        fresh_worker) = Some [STRESS_STATE_RUN]"
    by (simp add: watchdog_run_simps keep_stressing_def quiet_watchdog_env_ok example_args_fields
        delivery_fields sys_fields checked_fields watchdog_entry_fields fresh_worker_fields)
  let ?env = "quiet_context_env\<lparr>start_ok := False\<rparr>"
  have ga: "list_all (getcontext_ok ?env) [0..<STRESS_CONTEXTS]"
    by (simp add: quiet_context_env_def upt_contexts)
  obtain ok g1 where r: "context_init_loop ?env (example_args ''context'' 0) [0..<STRESS_CONTEXTS]
      (context_setup (example_args ''context'' 0) fresh_worker) = (ok, g1)"
    by (cases "context_init_loop ?env (example_args ''context'' 0) [0..<STRESS_CONTEXTS]
      (context_setup (example_args ''context'' 0) fresh_worker)")
  have ok: "ok" using context_init_loop_ok [OF ga, of "example_args ''context'' 0"
      "context_setup (example_args ''context'' 0) fresh_worker"] r by simp
  have ps: "proc_states g1 = []"
    using context_init_loop_frame [OF r] by (simp add: context_setup_fields fresh_worker_fields)
  have "stress_context 10 ?env (example_args ''context'' 0) fresh_worker
      = Some (EXIT_FAILURE, pr_fail (example_args ''context'' 0) ''swapcontext failed: %d (%s)''
          (stress_set_proc_state STRESS_STATE_RUN g1))"
    using r ok by (simp add: stress_context_def quiet_context_env_def Let_def)
  then show ?thesis
    using w ps by (simp add: pr_fail_def stress_set_proc_state_def)
qed

text \<open>
  C2 as amended: every return of the capability stressor, every return of the
  watchdog stressor that no signal has caused (the normal loop exit and the \<^verbatim>\<open>break\<close> on
  a failed \<^verbatim>\<open>close\<close>), and every return of the context stressor whose set-up has
  succeeded, announce \<^verbatim>\<open>DEINIT\<close> after \<^verbatim>\<open>RUN\<close> and nothing else.
\<close>

theorem C2_deinit_before_return_amended:
  "(stress_cap kenv args dirs w = Some (rc, g) \<longrightarrow>
      proc_states g = proc_states w @ [STRESS_STATE_RUN, STRESS_STATE_DEINIT]) \<and>
   (list_all (\<lambda>ok. ok) (sighandler_results wenv) \<and> access_result wenv = ACCESS_OK \<and>
    list_all (\<lambda>e. \<not> is_signal e) evs \<and> stress_watchdog wenv args evs w = Some (rc', g') \<longrightarrow>
      proc_states g' = proc_states w @ [STRESS_STATE_RUN, STRESS_STATE_DEINIT]) \<and>
   (setup_succeeds cenv \<and> stress_context fuel cenv args w = Some (rc'', g'') \<longrightarrow>
      proc_states g'' = proc_states w @ [STRESS_STATE_RUN, STRESS_STATE_DEINIT])"
proof (intro conjI impI)
  assume "stress_cap kenv args dirs w = Some (rc, g)"
  then show "proc_states g = proc_states w @ [STRESS_STATE_RUN, STRESS_STATE_DEINIT]"
    by (rule stress_cap_general)
next
  assume a: "list_all (\<lambda>ok. ok) (sighandler_results wenv) \<and> access_result wenv = ACCESS_OK \<and>
    list_all (\<lambda>e. \<not> is_signal e) evs \<and> stress_watchdog wenv args evs w = Some (rc', g')"
  then have "stress_watchdog wenv args evs w = watchdog_loop wenv args evs (watchdog_entry w)"
    by (intro stress_watchdog_running) blast+
  then have "watchdog_loop wenv args evs (watchdog_entry w) = Some (rc', g')" using a by simp
  from watchdog_loop_deinit [OF this] a
  show "proc_states g' = proc_states w @ [STRESS_STATE_RUN, STRESS_STATE_DEINIT]"
    by (simp add: watchdog_entry_fields)
next
  assume a: "setup_succeeds cenv \<and> stress_context fuel cenv args w = Some (rc'', g'')"
  then have rc: "rc'' = EXIT_SUCCESS" using stress_context_rc by blast
  with a have "stress_context fuel cenv args w = Some (EXIT_SUCCESS, g'')" by simp
  from stress_context_success [OF this] obtain g3 where
    run: "stress_threads fuel cenv 0 (loop_entry cenv args w) = Some g3"
    and fin: "(EXIT_SUCCESS, g'') = context_finish cenv args g3" by blast
  have "g'' = snd (context_finish cenv args g3)" using fin by (simp add: prod_eq_iff)
  then show "proc_states g'' = proc_states w @ [STRESS_STATE_RUN, STRESS_STATE_DEINIT]"
    using stress_threads_worker [OF run] by (simp add: context_finish_fields loop_entry_fields)
qed

text \<open>
  The three parts at concrete runs: a capability run with the ceiling 1, a watchdog
  run that fails to close the device, a context run with the ceiling 5000.
\<close>

theorem C2_deinit_before_return_witness:
  "(\<exists>g. stress_cap quiet_cap_env (example_args ''cap'' 1) [None] fresh_worker = Some (EXIT_SUCCESS, g) \<and>
        proc_states g = [STRESS_STATE_RUN, STRESS_STATE_DEINIT]) \<and>
   (\<exists>g. stress_watchdog quiet_watchdog_env (example_args ''watchdog'' 1) [Open_ok 3 False] fresh_worker
          = Some (EXIT_FAILURE, g) \<and> proc_states g = [STRESS_STATE_RUN, STRESS_STATE_DEINIT]) \<and>
   (\<exists>g. stress_context 5000002 quiet_context_env (example_args ''context'' 5000) fresh_worker
          = Some (EXIT_SUCCESS, g) \<and> proc_states g = [STRESS_STATE_RUN, STRESS_STATE_DEINIT])"
proof -
  obtain g1 where g1: "stress_cap quiet_cap_env (example_args ''cap'' 1) [None] fresh_worker
      = Some (EXIT_SUCCESS, g1)"
    using stress_cap_exact [of quiet_cap_env "example_args ''cap'' 1" fresh_worker "[None]"]
    by (auto simp: quiet_cap_env_ok example_args_fields fresh_worker_fields)
  obtain g2 where g2: "stress_watchdog quiet_watchdog_env (example_args ''watchdog'' 1)
      [Open_ok 3 False] fresh_worker = Some (EXIT_FAILURE, g2)"
    by (simp add: watchdog_run_simps keep_stressing_def quiet_watchdog_env_ok example_args_fields
        checked_fields watchdog_entry_fields fresh_worker_fields Let_def)
  obtain g3 where g3: "stress_context 5000002 quiet_context_env (example_args ''context'' 5000)
      fresh_worker = Some (EXIT_SUCCESS, g3)"
    using stress_context_exact [of quiet_context_env "example_args ''context'' 5000" 5000002 fresh_worker]
    by (auto simp: quiet_context_env_ok example_args_fields)
  note t = C2_deinit_before_return_amended [where kenv = quiet_cap_env
      and args = "example_args ''cap'' 1" and dirs = "[None]" and w = fresh_worker
      and rc = EXIT_SUCCESS and g = g1, THEN conjunct1]
    C2_deinit_before_return_amended [where wenv = quiet_watchdog_env
      and args = "example_args ''watchdog'' 1" and evs = "[Open_ok 3 False]" and w = fresh_worker
      and rc' = EXIT_FAILURE and g' = g2, THEN conjunct2, THEN conjunct1]
    C2_deinit_before_return_amended [where cenv = quiet_context_env
      and args = "example_args ''context'' 5000" and fuel = 5000002 and w = fresh_worker
      and rc'' = EXIT_SUCCESS and g'' = g3, THEN conjunct2, THEN conjunct2]
  show ?thesis
    using t g1 g2 g3
    by (simp add: quiet_watchdog_env_ok quiet_context_env_ok fresh_worker_fields)
qed

subsection \<open>C3: a resource that is not there\<close>

text \<open>
  Claim C3 says that a workload whose resource is missing returns \<^verbatim>\<open>NO_RESOURCE\<close>. The
  watchdog stressor returns \<^verbatim>\<open>EXIT_SUCCESS\<close> when \<^verbatim>\<open>/dev/watchdog\<close> does not exist.
\<close>

theorem C3_resource_unavailable_counterexample:
  "map_option fst
     (stress_watchdog (quiet_watchdog_env\<lparr>access_result := ACCESS_ENOENT\<rparr>)
        (example_args ''watchdog'' 0) [] fresh_worker)
   = Some EXIT_SUCCESS \<and>
   map_option fst
     (stress_watchdog (quiet_watchdog_env\<lparr>access_result := ACCESS_ENOENT\<rparr>)
        (example_args ''watchdog'' 0) [] fresh_worker)
   \<noteq> Some EXIT_NO_RESOURCE"
  by (simp add: stress_watchdog_def quiet_watchdog_env_def list_all_iff Let_def)

text \<open>
  C3 as amended: neither workload fails. When \<^verbatim>\<open>access\<close> fails (the handlers being
  installed), the watchdog stressor returns \<^verbatim>\<open>EXIT_SUCCESS\<close> without touching counter or
  run state, and prints one \<^verbatim>\<open>pr_inf_skip\<close> message if it is instance 0 and none
  otherwise. When \<^verbatim>\<open>mmap\<close> fails, the context stressor returns \<^verbatim>\<open>EXIT_NO_RESOURCE\<close>
  without touching counter or run state, and prints one \<^verbatim>\<open>pr_inf\<close> message.
\<close>

theorem C3_resource_unavailable_amended:
  "(list_all (\<lambda>ok. ok) (sighandler_results wenv) \<and> access_result wenv \<noteq> ACCESS_OK \<longrightarrow>
      (\<exists>g txt. stress_watchdog wenv args evs w = Some (EXIT_SUCCESS, g) \<and>
         counter g = counter w \<and> proc_states g = proc_states w \<and>
         messages g = messages w @
           (if args_instance args = 0 then [(PR_INF_SKIP, name args, txt)] else []))) \<and>
   (\<not> mmap_ok cenv \<longrightarrow>
      (\<exists>g. stress_context fuel cenv args w = Some (EXIT_NO_RESOURCE, g) \<and>
         counter g = counter w \<and> proc_states g = proc_states w \<and>
         messages g = messages w @
           [(PR_INF, name args, ''failed to allocate %d x %zd byte context buffers, skipping stressor'')]))"
proof (intro conjI impI)
  assume a: "list_all (\<lambda>ok. ok) (sighandler_results wenv) \<and> access_result wenv \<noteq> ACCESS_OK"
  show "\<exists>g txt. stress_watchdog wenv args evs w = Some (EXIT_SUCCESS, g) \<and>
         counter g = counter w \<and> proc_states g = proc_states w \<and>
         messages g = messages w @
           (if args_instance args = 0 then [(PR_INF_SKIP, name args, txt)] else [])"
  proof (cases "access_result wenv = ACCESS_ENOENT")
    case True
    then show ?thesis
      using a by (simp add: stress_watchdog_def Let_def pr_inf_skip_def worker.defs
          watchdog_worker.defs)
  next
    case False
    then show ?thesis
      using a by (simp add: stress_watchdog_def Let_def pr_inf_skip_def worker.defs
          watchdog_worker.defs)
  qed
next
  assume "\<not> mmap_ok cenv"
  then show "\<exists>g. stress_context fuel cenv args w = Some (EXIT_NO_RESOURCE, g) \<and>
         counter g = counter w \<and> proc_states g = proc_states w \<and>
         messages g = messages w @
           [(PR_INF, name args, ''failed to allocate %d x %zd byte context buffers, skipping stressor'')]"
    by (simp add: stress_context_def Let_def pr_inf_def context_statics_fields)
qed

text \<open>
  Both parts at concrete runs: a device that cannot be accessed, a mapping that fails.
\<close>

theorem C3_resource_unavailable_witness:
  "(\<exists>g txt. stress_watchdog (quiet_watchdog_env\<lparr>access_result := ACCESS_OTHER_ERRNO\<rparr>)
        (example_args ''watchdog'' 0) [] fresh_worker = Some (EXIT_SUCCESS, g) \<and>
      counter g = 0 \<and> proc_states g = [] \<and> messages g = [(PR_INF_SKIP, ''watchdog'', txt)]) \<and>
   (\<exists>g. stress_context 0 (quiet_context_env\<lparr>mmap_ok := False\<rparr>) (example_args ''context'' 0)
        fresh_worker = Some (EXIT_NO_RESOURCE, g) \<and>
      counter g = 0 \<and> proc_states g = [] \<and>
      messages g = [(PR_INF, ''context'', ''failed to allocate %d x %zd byte context buffers, skipping stressor'')])"
  using C3_resource_unavailable_amended [where wenv = "quiet_watchdog_env\<lparr>access_result := ACCESS_OTHER_ERRNO\<rparr>"
      and args = "example_args ''watchdog'' 0" and evs = "[]" and w = fresh_worker, THEN conjunct1]
    C3_resource_unavailable_amended [where cenv = "quiet_context_env\<lparr>mmap_ok := False\<rparr>"
      and args = "example_args ''context'' 0" and fuel = 0 and w = fresh_worker, THEN conjunct2]
  by (simp add: quiet_watchdog_env_def quiet_context_env_def list_all_iff example_args_fields
      fresh_worker_fields)

subsection \<open>C4: clobbered canaries\<close>

text \<open>
  Claim C4 says that a canary mismatch after the run makes the worker's outcome
  \<^verbatim>\<open>FAILURE\<close>. The code prints the failure and then sets \<open>rc\<close> to \<^verbatim>\<open>EXIT_SUCCESS\<close>
  all the same: in a run with the ceiling 5000 in which the word in front of the first
  saved context is overwritten, \<^verbatim>\<open>stress_context\<close> returns \<^verbatim>\<open>EXIT_SUCCESS\<close> and its only
  message is the failure message of the stressor.
\<close>

theorem C4_clobbered_canary_returns_success:
  "map_option fst
     (stress_context 5000002 clobbering_context_env (example_args ''context'' 5000) fresh_worker)
   = Some EXIT_SUCCESS \<and>
   map_option (messages \<circ> snd)
     (stress_context 5000002 clobbering_context_env (example_args ''context'' 5000) fresh_worker)
   = Some [(PR_FAIL, ''context'', ''swapcontext clobbered data before context region'')]"
proof -
  let ?env = clobbering_context_env and ?args = "example_args ''context'' 5000"
  let ?e = "loop_entry ?env ?args fresh_worker"
  have m: "max_ops ?args * 1000 = 5000000" by (simp add: example_args_def)
  have inv: "threads_inv ?e" by (rule loop_entry_inv) (simp add: m)
  have "unat (stress_max_ops ?e) + 2 \<le> 5000002 + unat (context_counter ?e)"
    by (simp add: loop_entry_fields m)
  from stress_threads_returns [OF inv _ this, of 0 ?env]
  obtain g3 where run: "stress_threads 5000002 ?env 0 ?e = Some g3" by auto
  note fr = stress_threads_worker [OF run]
  have ga: "list_all (getcontext_ok ?env) [0..<STRESS_CONTEXTS]"
    using clobbering_context_env_ok(1) by (simp add: setup_succeeds_def)
  have msgs: "messages g3 = []"
    using fr loop_entry_messages [OF ga, of ?args fresh_worker] by (simp add: fresh_worker_def)
  have ctx: "contexts g3 = contexts ?e" using fr by simp
  have fin: "stress_context 5000002 ?env ?args fresh_worker = Some (context_finish ?env ?args g3)"
    using run by (simp add: stress_context_loop [OF clobbering_context_env_ok(1)])
  have cs: "contexts g3 =
      map (\<lambda>i. \<lparr>cu_check0 = stress_mwc32 ?env (2 * i), cu_check1 = stress_mwc32 ?env (2 * i + 1),
                canary_check0 = stress_mwc32 ?env (2 * i),
                canary_check1 = stress_mwc32 ?env (2 * i + 1)\<rparr>) [0, 1, 2]"
    using ctx loop_entry_contexts [OF ga, of ?args fresh_worker] by simp
  have cl: "clobbered ?env (contexts g3) =
      [\<lparr>cu_check0 = 18, cu_check1 = 18, canary_check0 = 17, canary_check1 = 18\<rparr>,
       \<lparr>cu_check0 = 19, cu_check1 = 20, canary_check0 = 19, canary_check1 = 20\<rparr>,
       \<lparr>cu_check0 = 21, cu_check1 = 22, canary_check0 = 21, canary_check1 = 22\<rparr>]"
    by (simp add: cs clobbered_def numeral_3_eq_3 clobbering_context_env_def quiet_context_env_def)
  have "messages (snd (context_finish ?env ?args g3))
        = [(PR_FAIL, ''context'', ''swapcontext clobbered data before context region'')]"
    by (simp add: context_finish_def Let_def cl canary_check_def pr_fail_def set_counter_def
        stress_set_proc_state_def msgs example_args_def)
  then show ?thesis
    using fin context_finish_fields(1) [of ?env ?args g3] by simp
qed

subsection \<open>C5: the keep-running predicate\<close>

text \<open>
  Claim C5: the predicate of every inner loop is \<open>flag \<and> (ceiling = 0 \<or> counter <
  ceiling)\<close>, and each workload evaluates it at least once per completed unit of work.

  The predicate: the loop condition of the micro threads is this predicate on the scaled
  ceiling and the internal counter; \<open>keep_stressing\<close>, which the other two loops call, is
  this predicate on \<open>max_ops\<close> and the worker's counter.

  The context stressor, in every run that returns \<^verbatim>\<open>EXIT_SUCCESS\<close>. The evaluations are
  at least the units the worker reports (its final counter, a unit being 1000 \<^verbatim>\<open>do\<close>
  bodies). The bodies themselves are counted exactly: \<open>swaps\<close> bodies have begun, the
  internal counter is their number, and the evaluations are one for each body that has
  begun less one for each thread started after the first. A body is counted when it
  begins and is followed by an evaluation when its \<^verbatim>\<open>swapcontext\<close> returns; the threads
  other than the one that leaves the loop stay suspended in theirs, so that up to two
  counted bodies are never followed by an evaluation. The loop makes at least one
  evaluation, the last one fails on the scaled ceiling and the internal counter, every
  earlier one has read the flag as true, and under a scaled ceiling other than 0 the
  internal counter ends at most two above it. When the set-up succeeds and the flag
  reads false at the evaluation \<open>k\<close> places ahead (\<open>k = 0\<close>: the next one), the run
  returns within \<open>k + 3\<close> bodies, having made at most \<open>k + 1\<close> further evaluations.

  The capability stressor, in every run that returns. The evaluations are at least the
  probes, which are what the counter counts. The loop makes at least one evaluation and
  the last one fails; the probes are at most one more than the evaluations that have
  read the flag as true (a probe is made only at the start or behind an evaluation that
  has passed; behind a \<^verbatim>\<open>break\<close> of the directory loop the \<^verbatim>\<open>while\<close> condition is
  evaluated once more and may pass); under a ceiling other than 0 that the counter
  starts below, the counter ends at or below it. When the flag reads false at two
  evaluations in a row, \<open>k\<close> and \<open>k + 1\<close> places ahead, the run returns within \<open>k + 1\<close>
  passes of the outer loop, having made at most \<open>k + 2\<close> further evaluations.

  The watchdog stressor, in every run that returns. When the evaluations made before
  the run are at least the counter it starts with, the evaluations at its end are at
  least the final counter. Once the handlers are installed and the
  device is accessible, the loop makes at least one evaluation, every evaluation but the
  last has read the flag as true, the last one fails when the loop is left through its
  condition (\<^verbatim>\<open>EXIT_SUCCESS\<close> and no signal), and under a ceiling other than 0 that the
  counter starts at or below, the counter ends at or below it. When the flag reads
  false at the evaluation \<open>k\<close> places ahead, the run returns within \<open>k\<close> passes of the
  loop, having made at most \<open>k + 1\<close> further evaluations.
\<close>

theorem C5_keep_running_predicate:
  "context_loop_condition cenv g =
     keep_running_predicate (keep_stressing_flag cenv (checks g)) (stress_max_ops g) (context_counter g) \<and>
   keep_stressing env args v =
     keep_running_predicate (keep_stressing_flag env (checks v)) (max_ops args) (counter v) \<and>
   (stress_context fuel cenv args w = Some (EXIT_SUCCESS, g1) \<longrightarrow>
      unat (counter g1) \<le> checks g1 \<and>
      checks w < checks g1 \<and>
      checks g1 + length (started g1) = checks w + swaps g1 + 1 \<and>
      1 \<le> length (started g1) \<and> length (started g1) \<le> 3 \<and>
      context_counter g1 = of_nat (swaps g1) \<and>
      \<not> keep_running_predicate (keep_stressing_flag cenv (checks g1 - 1)) (max_ops args * 1000)
          (context_counter g1) \<and>
      (\<forall>n. checks w \<le> n \<and> Suc n < checks g1 \<longrightarrow> keep_stressing_flag cenv n) \<and>
      (max_ops args * 1000 \<noteq> 0 \<longrightarrow>
         unat (context_counter g1) \<le> unat (max_ops args * 1000) + 2)) \<and>
   (setup_succeeds cenv \<and> \<not> keep_stressing_flag cenv (checks w + k) \<and> k + 3 \<le> fuel \<longrightarrow>
      (\<exists>g'. stress_context fuel cenv args w = Some (EXIT_SUCCESS, g') \<and>
            checks g' \<le> checks w + k + 1)) \<and>
   (stress_cap kenv args dirs w = Some (rc, g2) \<longrightarrow>
      checks w + length (probes g2) \<le> checks g2 \<and>
      counter g2 = counter w + of_nat (length (probes g2)) \<and>
      checks w < checks g2 \<and>
      length (probes g2) \<le> 1 + length (filter (keep_stressing_flag kenv) [checks w..<checks g2]) \<and>
      \<not> keep_running_predicate (keep_stressing_flag kenv (checks g2 - 1)) (max_ops args)
          (counter g2) \<and>
      (max_ops args \<noteq> 0 \<and> counter w < max_ops args \<longrightarrow> counter g2 \<le> max_ops args)) \<and>
   (\<not> keep_stressing_flag kenv (checks w + k) \<and> \<not> keep_stressing_flag kenv (checks w + k + 1) \<and>
    k < length dirs \<longrightarrow>
      (\<exists>g'. stress_cap kenv args dirs w = Some (EXIT_SUCCESS, g') \<and>
            checks g' \<le> checks w + k + 2)) \<and>
   (unat (counter w) \<le> checks w \<and> stress_watchdog wenv args evs w = Some (rc', g3) \<longrightarrow>
      unat (counter g3) \<le> checks g3) \<and>
   (list_all (\<lambda>ok. ok) (sighandler_results wenv) \<and> access_result wenv = ACCESS_OK \<and>
    stress_watchdog wenv args evs w = Some (rc', g3) \<longrightarrow>
      checks w < checks g3 \<and>
      (\<forall>n. checks w \<le> n \<and> Suc n < checks g3 \<longrightarrow> keep_stressing_flag wenv n) \<and>
      (rc' = EXIT_SUCCESS \<and> list_all (\<lambda>e. \<not> is_signal e) evs \<longrightarrow>
         \<not> keep_running_predicate (keep_stressing_flag wenv (checks g3 - 1)) (max_ops args)
             (counter g3)) \<and>
      (max_ops args \<noteq> 0 \<and> counter w \<le> max_ops args \<longrightarrow> counter g3 \<le> max_ops args)) \<and>
   (list_all (\<lambda>ok. ok) (sighandler_results wenv) \<and> access_result wenv = ACCESS_OK \<and>
    \<not> keep_stressing_flag wenv (checks w + k) \<and> k \<le> length evs \<longrightarrow>
      (\<exists>rc g'. stress_watchdog wenv args evs w = Some (rc, g') \<and>
               checks g' \<le> checks w + k + 1))"
proof (intro conjI impI)
  show "context_loop_condition cenv g =
     keep_running_predicate (keep_stressing_flag cenv (checks g)) (stress_max_ops g) (context_counter g)"
    by (simp add: context_loop_condition_def keep_running_predicate_def)
  show "keep_stressing env args v =
     keep_running_predicate (keep_stressing_flag env (checks v)) (max_ops args) (counter v)"
    by (simp add: keep_stressing_def keep_running_predicate_def)
next
  assume a: "stress_context fuel cenv args w = Some (EXIT_SUCCESS, g1)"
  note e = stress_context_evaluations [OF a]
  from stress_context_success [OF a] obtain g3 where
    run: "stress_threads fuel cenv 0 (loop_entry cenv args w) = Some g3"
    and fin: "(EXIT_SUCCESS, g1) = context_finish cenv args g3" by blast
  have g1: "g1 = snd (context_finish cenv args g3)" using fin by (simp add: prod_eq_iff)
  have "started_ok (loop_entry cenv args w)" by (simp add: started_ok_def loop_entry_fields)
  moreover have "unat (context_counter (loop_entry cenv args w)) + 1
      \<le> checks (loop_entry cenv args w) + length (started (loop_entry cenv args w))"
    by (simp add: loop_entry_fields)
  ultimately have c: "unat (context_counter g3) \<le> checks g3 + 2 \<and> 0 < checks g3"
    using stress_threads_checks [OF run] by simp
  have "unat (context_counter g3 div 1000) = unat (context_counter g3) div 1000"
    by (simp add: unat_div)
  also have "\<dots> \<le> checks g3" using c by linarith
  finally show "unat (counter g1) \<le> checks g1" by (simp add: g1 context_finish_fields)
  show "checks w < checks g1" by (rule e)
  show "checks g1 + length (started g1) = checks w + swaps g1 + 1" by (rule e)
  show "1 \<le> length (started g1)" by (rule e)
  show "length (started g1) \<le> 3" by (rule e)
  show "context_counter g1 = of_nat (swaps g1)" by (rule e)
  show "\<not> keep_running_predicate (keep_stressing_flag cenv (checks g1 - 1)) (max_ops args * 1000)
          (context_counter g1)" by (rule e)
  show "\<forall>n. checks w \<le> n \<and> Suc n < checks g1 \<longrightarrow> keep_stressing_flag cenv n" by (rule e)
  show "unat (context_counter g1) \<le> unat (max_ops args * 1000) + 2" if "max_ops args * 1000 \<noteq> 0"
    using e(8) that by blast
next
  assume "setup_succeeds cenv \<and> \<not> keep_stressing_flag cenv (checks w + k) \<and> k + 3 \<le> fuel"
  then show "\<exists>g'. stress_context fuel cenv args w = Some (EXIT_SUCCESS, g') \<and>
            checks g' \<le> checks w + k + 1"
    by (intro stress_context_cancelled) blast+
next
  assume a: "stress_cap kenv args dirs w = Some (rc, g2)"
  show "checks w + length (probes g2) \<le> checks g2" using a by (rule stress_cap_general)
  show "counter g2 = counter w + of_nat (length (probes g2))" using a by (rule stress_cap_general)
  show "checks w < checks g2" using a by (rule stress_cap_evaluations)
  show "length (probes g2) \<le> 1 + length (filter (keep_stressing_flag kenv) [checks w..<checks g2])"
    using a by (rule stress_cap_evaluations)
  show "\<not> keep_running_predicate (keep_stressing_flag kenv (checks g2 - 1)) (max_ops args)
          (counter g2)"
    using a by (rule stress_cap_evaluations)
  show "counter g2 \<le> max_ops args" if "max_ops args \<noteq> 0 \<and> counter w < max_ops args"
    using that by (intro stress_cap_ceiling [OF a]) blast+
next
  assume "\<not> keep_stressing_flag kenv (checks w + k) \<and> \<not> keep_stressing_flag kenv (checks w + k + 1) \<and>
    k < length dirs"
  then show "\<exists>g'. stress_cap kenv args dirs w = Some (EXIT_SUCCESS, g') \<and>
            checks g' \<le> checks w + k + 2"
    by (intro stress_cap_cancelled) blast+
next
  assume a: "unat (counter w) \<le> checks w \<and> stress_watchdog wenv args evs w = Some (rc', g3)"
  show "unat (counter g3) \<le> checks g3"
  proof (cases "list_all (\<lambda>ok. ok) (sighandler_results wenv) \<and> access_result wenv = ACCESS_OK")
    case True
    then have "watchdog_loop wenv args evs (watchdog_entry w) = Some (rc', g3)"
      using a by (simp add: stress_watchdog_running)
    from watchdog_loop_checks [OF this] a show ?thesis by (simp add: watchdog_entry_fields)
  next
    case False
    from stress_watchdog_early [OF False, of args evs w] a show ?thesis by auto
  qed
next
  assume a: "list_all (\<lambda>ok. ok) (sighandler_results wenv) \<and> access_result wenv = ACCESS_OK \<and>
    stress_watchdog wenv args evs w = Some (rc', g3)"
  then have h: "list_all (\<lambda>ok. ok) (sighandler_results wenv)" "access_result wenv = ACCESS_OK"
    "stress_watchdog wenv args evs w = Some (rc', g3)" by blast+
  have l: "watchdog_loop wenv args evs (watchdog_entry w) = Some (rc', g3)"
    using h(3) unfolding stress_watchdog_running [OF h(1,2)] .
  note e = watchdog_loop_evaluations [OF l, simplified watchdog_entry_fields]
  show "checks w < checks g3" using e by blast
  show "\<forall>n. checks w \<le> n \<and> Suc n < checks g3 \<longrightarrow> keep_stressing_flag wenv n" using e by blast
  show "\<not> keep_running_predicate (keep_stressing_flag wenv (checks g3 - 1)) (max_ops args)
             (counter g3)"
    if "rc' = EXIT_SUCCESS \<and> list_all (\<lambda>e. \<not> is_signal e) evs"
    using e that by blast
  show "counter g3 \<le> max_ops args" if "max_ops args \<noteq> 0 \<and> counter w \<le> max_ops args"
    using watchdog_loop_ceiling [OF l] that by (simp add: watchdog_entry_fields)
next
  assume "list_all (\<lambda>ok. ok) (sighandler_results wenv) \<and> access_result wenv = ACCESS_OK \<and>
    \<not> keep_stressing_flag wenv (checks w + k) \<and> k \<le> length evs"
  then show "\<exists>rc g'. stress_watchdog wenv args evs w = Some (rc, g') \<and>
               checks g' \<le> checks w + k + 1"
    by (intro stress_watchdog_cancelled) blast+
qed

text \<open>
  At concrete runs. In the first three the flag reads true twice and false from then
  on, with no ceiling: the context stressor begins five bodies in three threads and
  makes three evaluations, the capability stressor makes three probes and three
  evaluations, the watchdog stressor completes two passes and makes three evaluations.
  In the next three the flag stays true and the ceiling ends the run. The last two are
  the predicate at the ceiling and just below it.
\<close>

theorem C5_keep_running_predicate_witness:
  "(\<exists>g. stress_context 5 stopping_context_env (example_args ''context'' 0) fresh_worker
          = Some (EXIT_SUCCESS, g) \<and>
        checks g = 3 \<and> swaps g = 5 \<and> length (started g) = 3 \<and> context_counter g = 5 \<and>
        counter g = 0 \<and> \<not> keep_stressing_flag stopping_context_env 2) \<and>
   (\<exists>g. stress_cap stopping_cap_env (example_args ''cap'' 0) (replicate 3 None) fresh_worker
          = Some (EXIT_SUCCESS, g) \<and>
        checks g = 3 \<and> length (probes g) = 3 \<and> counter g = 3 \<and>
        filter (keep_stressing_flag stopping_cap_env) [0..<3] = [0, 1]) \<and>
   (\<exists>g. stress_watchdog stopping_watchdog_env (example_args ''watchdog'' 0)
           [Open_ok 3 True, Open_ok 3 True] fresh_worker
          = Some (EXIT_SUCCESS, g) \<and>
        checks g = 3 \<and> counter g = 2 \<and> \<not> keep_stressing_flag stopping_watchdog_env 2) \<and>
   (\<exists>g. stress_context 5000002 quiet_context_env (example_args ''context'' 5000) fresh_worker
          = Some (EXIT_SUCCESS, g) \<and>
        unat (counter g) \<le> checks g \<and> unat (context_counter g) \<le> 5000002 \<and>
        checks g + length (started g) = swaps g + 1) \<and>
   (\<exists>g. stress_cap quiet_cap_env (example_args ''cap'' 4) (replicate 4 None) fresh_worker
          = Some (EXIT_SUCCESS, g) \<and>
        length (probes g) \<le> checks g \<and> counter g = of_nat (length (probes g)) \<and> counter g \<le> 4) \<and>
   (\<exists>g. stress_watchdog quiet_watchdog_env (example_args ''watchdog'' 2)
           (map (\<lambda>d. Open_ok d True) [3, 3]) fresh_worker
          = Some (EXIT_SUCCESS, g) \<and>
        unat (counter g) \<le> checks g \<and> counter g \<le> 2 \<and> 0 < checks g) \<and>
   \<not> keep_stressing quiet_cap_env (example_args ''cap'' 4) (fresh_worker\<lparr>counter := 4\<rparr>) \<and>
   keep_stressing quiet_cap_env (example_args ''cap'' 4) (fresh_worker\<lparr>counter := 3\<rparr>)"
proof -
  note c2 = C5_keep_running_predicate [THEN conjunct2, THEN conjunct1]
  note c3 = C5_keep_running_predicate [THEN conjunct2, THEN conjunct2, THEN conjunct1, rule_format]
  note c4 = C5_keep_running_predicate [THEN conjunct2, THEN conjunct2, THEN conjunct2,
      THEN conjunct1, rule_format]
  note c5 = C5_keep_running_predicate [THEN conjunct2, THEN conjunct2, THEN conjunct2,
      THEN conjunct2, THEN conjunct1, rule_format]
  note c6 = C5_keep_running_predicate [THEN conjunct2, THEN conjunct2, THEN conjunct2,
      THEN conjunct2, THEN conjunct2, THEN conjunct1, rule_format]
  note c7 = C5_keep_running_predicate [THEN conjunct2, THEN conjunct2, THEN conjunct2,
      THEN conjunct2, THEN conjunct2, THEN conjunct2, THEN conjunct1, rule_format]
  note c8 = C5_keep_running_predicate [THEN conjunct2, THEN conjunct2, THEN conjunct2,
      THEN conjunct2, THEN conjunct2, THEN conjunct2, THEN conjunct2, THEN conjunct1, rule_format]
  note c9 = C5_keep_running_predicate [THEN conjunct2, THEN conjunct2, THEN conjunct2,
      THEN conjunct2, THEN conjunct2, THEN conjunct2, THEN conjunct2, THEN conjunct2, rule_format]
  have c: "\<exists>g'. stress_context 5 stopping_context_env (example_args ''context'' 0) fresh_worker
          = Some (EXIT_SUCCESS, g') \<and> checks g' \<le> checks fresh_worker + 2 + 1"
    by (rule c4) (simp add: stopping_context_env_ok stopping_context_env_fields)
  then obtain s1 where s1: "stress_context 5 stopping_context_env (example_args ''context'' 0)
      fresh_worker = Some (EXIT_SUCCESS, s1)" by blast
  have s1v: "swaps s1 = 5" "counter s1 = 0"
    using stopping_context_run by (simp_all add: s1)
  have c: "checks s1 \<le> 3" using c by (simp add: s1 fresh_worker_fields)
  have "\<exists>g'. stress_cap stopping_cap_env (example_args ''cap'' 0) (replicate 3 None) fresh_worker
          = Some (EXIT_SUCCESS, g') \<and> checks g' \<le> checks fresh_worker + 2 + 2"
    by (rule c6) (simp add: stopping_cap_env_def)
  then obtain s2 where s2: "stress_cap stopping_cap_env (example_args ''cap'' 0) (replicate 3 None)
      fresh_worker = Some (EXIT_SUCCESS, s2)" by blast
  have s2v: "checks s2 = 3" "length (probes s2) = 3"
    using stopping_cap_run by (simp_all add: s2)
  have "\<exists>rc g'. stress_watchdog stopping_watchdog_env (example_args ''watchdog'' 0)
           [Open_ok 3 True, Open_ok 3 True] fresh_worker = Some (rc, g') \<and>
           checks g' \<le> checks fresh_worker + 2 + 1"
    by (rule c9) (simp add: stopping_watchdog_env_ok stopping_watchdog_env_fields)
  then obtain rc3 s3 where s3: "stress_watchdog stopping_watchdog_env (example_args ''watchdog'' 0)
      [Open_ok 3 True, Open_ok 3 True] fresh_worker = Some (rc3, s3)" by blast
  have s3v: "rc3 = EXIT_SUCCESS" "checks s3 = 3" "counter s3 = 2"
    using stopping_watchdog_run by (simp_all add: s3)
  obtain g1 where g1: "stress_context 5000002 quiet_context_env (example_args ''context'' 5000)
      fresh_worker = Some (EXIT_SUCCESS, g1)"
    using stress_context_exact [of quiet_context_env "example_args ''context'' 5000" 5000002 fresh_worker]
    by (auto simp: quiet_context_env_ok example_args_fields)
  obtain g2 where g2: "stress_cap quiet_cap_env (example_args ''cap'' 4) (replicate 4 None)
      fresh_worker = Some (EXIT_SUCCESS, g2)"
    using stress_cap_exact [of quiet_cap_env "example_args ''cap'' 4" fresh_worker "replicate 4 None"]
    by (auto simp: quiet_cap_env_ok example_args_fields fresh_worker_fields)
  obtain g3 where g3: "stress_watchdog quiet_watchdog_env (example_args ''watchdog'' 2)
      (map (\<lambda>d. Open_ok d True) [3, 3]) fresh_worker = Some (EXIT_SUCCESS, g3)"
    using watchdog_loop_all_ok [of quiet_watchdog_env "example_args ''watchdog'' 2"
        "watchdog_entry fresh_worker" "[3, 3]"]
    by (auto simp: watchdog_run_simps quiet_watchdog_env_ok example_args_fields
        watchdog_entry_fields fresh_worker_fields)
  have m: "unat (max_ops (example_args ''context'' 5000) * 1000) + 2 = 5000002"
    by (simp add: example_args_fields)
  note w8 = C5_keep_running_predicate [where wenv = stopping_watchdog_env
      and args = "example_args ''watchdog'' 0" and evs = "[Open_ok 3 True, Open_ok 3 True]"
      and w = fresh_worker and rc' = rc3 and ?g3.0 = s3,
      THEN conjunct2, THEN conjunct2, THEN conjunct2, THEN conjunct2, THEN conjunct2,
      THEN conjunct2, THEN conjunct2, THEN conjunct1, rule_format,
      OF conjI [OF stopping_watchdog_env_ok(1) conjI [OF stopping_watchdog_env_ok(2) s3]]]
  note q7 = C5_keep_running_predicate [where wenv = quiet_watchdog_env
      and args = "example_args ''watchdog'' 2" and evs = "map (\<lambda>d. Open_ok d True) [3, 3]"
      and w = fresh_worker and rc' = EXIT_SUCCESS and ?g3.0 = g3,
      THEN conjunct2, THEN conjunct2, THEN conjunct2, THEN conjunct2, THEN conjunct2,
      THEN conjunct2, THEN conjunct1, rule_format, OF conjI [OF _ g3]]
  note q8 = C5_keep_running_predicate [where wenv = quiet_watchdog_env
      and args = "example_args ''watchdog'' 2" and evs = "map (\<lambda>d. Open_ok d True) [3, 3]"
      and w = fresh_worker and rc' = EXIT_SUCCESS and ?g3.0 = g3,
      THEN conjunct2, THEN conjunct2, THEN conjunct2, THEN conjunct2, THEN conjunct2,
      THEN conjunct2, THEN conjunct2, THEN conjunct1, rule_format,
      OF conjI [OF quiet_watchdog_env_ok(1) conjI [OF quiet_watchdog_env_ok(2) g3]]]
  note p4 = C5_keep_running_predicate [where env = quiet_cap_env and args = "example_args ''cap'' 4"
      and v = "fresh_worker\<lparr>counter := 4\<rparr>", THEN conjunct2, THEN conjunct1]
  note p3 = C5_keep_running_predicate [where env = quiet_cap_env and args = "example_args ''cap'' 4"
      and v = "fresh_worker\<lparr>counter := 3\<rparr>", THEN conjunct2, THEN conjunct1]
  have r1: "\<exists>g. stress_context 5 stopping_context_env (example_args ''context'' 0) fresh_worker
          = Some (EXIT_SUCCESS, g) \<and>
        checks g = 3 \<and> swaps g = 5 \<and> length (started g) = 3 \<and> context_counter g = 5 \<and>
        counter g = 0 \<and> \<not> keep_stressing_flag stopping_context_env 2"
  proof -
    note t = c3 [OF s1]
    have a: "checks s1 \<le> 3" by (rule c)
    have "\<not> keep_stressing_flag stopping_context_env (checks s1 - 1)"
      using t by (simp add: keep_running_predicate_def example_args_fields)
    then have b: "3 \<le> checks s1" by (simp add: stopping_context_env_fields)
    have "checks s1 + length (started s1) = swaps s1 + 1"
      using t by (simp add: fresh_worker_fields)
    then have "length (started s1) = 3" using a b s1v by simp
    moreover have "context_counter s1 = 5" using t s1v by simp
    ultimately show ?thesis
      using s1 s1v a b by (simp add: stopping_context_env_fields)
  qed
  have r2: "\<exists>g. stress_cap stopping_cap_env (example_args ''cap'' 0) (replicate 3 None) fresh_worker
          = Some (EXIT_SUCCESS, g) \<and>
        checks g = 3 \<and> length (probes g) = 3 \<and> counter g = 3 \<and>
        filter (keep_stressing_flag stopping_cap_env) [0..<3] = [0, 1]"
  proof -
    note t = c5 [OF s2]
    have "counter s2 = 3" using t s2v by (simp add: fresh_worker_fields)
    moreover have "filter (keep_stressing_flag stopping_cap_env) [0..<3] = [0, 1]"
      by (simp add: stopping_cap_env_def numeral_3_eq_3)
    ultimately show ?thesis using s2 s2v by simp
  qed
  have r3: "\<exists>g. stress_watchdog stopping_watchdog_env (example_args ''watchdog'' 0)
           [Open_ok 3 True, Open_ok 3 True] fresh_worker
          = Some (EXIT_SUCCESS, g) \<and>
        checks g = 3 \<and> counter g = 2 \<and> \<not> keep_stressing_flag stopping_watchdog_env 2"
  proof -
    have "\<not> keep_stressing_flag stopping_watchdog_env (checks s3 - 1)"
      using w8 s3v by (simp add: keep_running_predicate_def example_args_fields)
    then show ?thesis using s3 s3v by simp
  qed
  have r4: "\<exists>g. stress_context 5000002 quiet_context_env (example_args ''context'' 5000) fresh_worker
          = Some (EXIT_SUCCESS, g) \<and>
        unat (counter g) \<le> checks g \<and> unat (context_counter g) \<le> 5000002 \<and>
        checks g + length (started g) = swaps g + 1"
  proof -
    note t = c3 [OF g1]
    have "max_ops (example_args ''context'' 5000) * 1000 \<noteq> 0" by (simp add: example_args_fields)
    then have "unat (context_counter g1) \<le> unat (max_ops (example_args ''context'' 5000) * 1000) + 2"
      using t by blast
    then have "unat (context_counter g1) \<le> 5000002" unfolding m .
    moreover have "unat (counter g1) \<le> checks g1" using t by blast
    moreover have "checks g1 + length (started g1) = swaps g1 + 1"
      using t by (simp add: fresh_worker_fields)
    ultimately show ?thesis using g1 by simp
  qed
  have r5: "\<exists>g. stress_cap quiet_cap_env (example_args ''cap'' 4) (replicate 4 None) fresh_worker
          = Some (EXIT_SUCCESS, g) \<and>
        length (probes g) \<le> checks g \<and> counter g = of_nat (length (probes g)) \<and> counter g \<le> 4"
  proof -
    note t = c5 [OF g2]
    have "length (probes g2) \<le> checks g2" using t by (simp add: fresh_worker_fields)
    moreover have "counter g2 = of_nat (length (probes g2))"
      using t by (simp add: fresh_worker_fields)
    moreover have "max_ops (example_args ''cap'' 4) \<noteq> 0 \<and>
        counter fresh_worker < max_ops (example_args ''cap'' 4)"
      by (simp add: fresh_worker_fields example_args_fields)
    then have "counter g2 \<le> max_ops (example_args ''cap'' 4)" using t by blast
    then have "counter g2 \<le> 4" by (simp add: example_args_fields)
    ultimately show ?thesis using g2 by blast
  qed
  have r6: "\<exists>g. stress_watchdog quiet_watchdog_env (example_args ''watchdog'' 2)
           (map (\<lambda>d. Open_ok d True) [3, 3]) fresh_worker
          = Some (EXIT_SUCCESS, g) \<and>
        unat (counter g) \<le> checks g \<and> counter g \<le> 2 \<and> 0 < checks g"
    using q7 q8 g3 by (simp add: fresh_worker_fields example_args_fields)
  have r7: "\<not> keep_stressing quiet_cap_env (example_args ''cap'' 4) (fresh_worker\<lparr>counter := 4\<rparr>)"
    unfolding p4 by (simp add: keep_running_predicate_def example_args_fields)
  have r8: "keep_stressing quiet_cap_env (example_args ''cap'' 4) (fresh_worker\<lparr>counter := 3\<rparr>)"
    unfolding p3 by (simp add: keep_running_predicate_def example_args_fields quiet_cap_env_def)
  show ?thesis
    by (intro conjI r1 r2 r3 r4 r5 r6 r7 r8)
qed

subsection \<open>C6: repeating the emergency clean-up\<close>

text \<open>
  Claim C6 says that every invocation of the clean-up after the descriptor has been
  closed is a no-op, so that a second signal cannot release the device twice. The
  magic close and the code behind \<^verbatim>\<open>sigsetjmp\<close> are both guarded by \<open>fd \<ge> 0\<close>, and the
  loop resets \<open>fd\<close> to \<open>-1\<close> right behind its own \<^verbatim>\<open>close\<close>; the code behind \<^verbatim>\<open>sigsetjmp\<close>
  closes \<open>fd\<close> and leaves its value in place. In the run evaluated here every call
  succeeds, \<^verbatim>\<open>open\<close> returns the descriptor 3, one signal arrives right behind the
  \<^verbatim>\<open>open\<close> and a second one behind the \<^verbatim>\<open>close\<close> of the clean-up, before its \<^verbatim>\<open>return\<close>:
  the handler writes to the closed descriptor 3 again and the clean-up closes it a
  second time.
\<close>

theorem C6_repeated_cleanup_counterexample:
  "map_option (syscalls \<circ> snd)
     (stress_watchdog quiet_watchdog_env (example_args ''watchdog'' 0) [Signal_while_open 3 1]
        fresh_worker)
   = Some [Sys_open 3, Sys_write 3 1, Sys_write 3 1, Sys_close 3,
           Sys_write 3 1, Sys_write 3 1, Sys_close 3]"
  by (simp add: watchdog_run_simps keep_stressing_def quiet_watchdog_env_ok example_args_fields
      checked_fields watchdog_entry_fields fresh_worker_fields stress_watchdog_handler_def
      watchdog_interrupted_def stress_watchdog_magic_close_def sys_def)
    (simp add: quiet_watchdog_env_def checked_def watchdog_entry_fields)

subsection \<open>C7: a busy device is retried\<close>



subsection \<open>C8: the descriptors of unimplemented stressors\<close>

text \<open>
  Claim C8: when the feature macros of a stressor are not all defined, its descriptor
  names \<^verbatim>\<open>stress_unimplemented\<close> and a non-empty reason, and keeps the class and the help
  of the implemented variant; running it yields \<^verbatim>\<open>NOT_IMPLEMENTED\<close> with that reason.
\<close>

theorem C8_unimplemented_descriptor:
  "(\<not> (c1 \<and> c2) \<longrightarrow>
      stressor (stress_cap_info c1 c2) = Call_stress_unimplemented \<and>
      unimplemented_reason (stress_cap_info c1 c2) = Some ''built without sys/capability.h'' \<and>
      info_class (stress_cap_info c1 c2) = info_class (stress_cap_info True True) \<and>
      info_help (stress_cap_info c1 c2) = info_help (stress_cap_info True True) \<and>
      run_stub (stress_cap_info c1 c2) args w
        = Some (EXIT_NOT_IMPLEMENTED, ''built without sys/capability.h'')) \<and>
   (\<not> (x1 \<and> x2) \<longrightarrow>
      stressor (stress_context_info x1 x2) = Call_stress_unimplemented \<and>
      unimplemented_reason (stress_context_info x1 x2) = Some ''built without ucontext.h'' \<and>
      info_class (stress_context_info x1 x2) = info_class (stress_context_info True True) \<and>
      info_help (stress_context_info x1 x2) = info_help (stress_context_info True True) \<and>
      run_stub (stress_context_info x1 x2) args w
        = Some (EXIT_NOT_IMPLEMENTED, ''built without ucontext.h'')) \<and>
   (\<not> h \<longrightarrow>
      stressor (stress_watchdog_info h) = Call_stress_unimplemented \<and>
      unimplemented_reason (stress_watchdog_info h) = Some ''built without linux/watchdog.h'' \<and>
      info_class (stress_watchdog_info h) = info_class (stress_watchdog_info True) \<and>
      info_help (stress_watchdog_info h) = info_help (stress_watchdog_info True) \<and>
      run_stub (stress_watchdog_info h) args w
        = Some (EXIT_NOT_IMPLEMENTED, ''built without linux/watchdog.h''))"
  by (simp add: stress_cap_info_def stress_context_info_def stress_watchdog_info_def run_stub_def
      stress_unimplemented_def)

text \<open>
  The three stubs, each with one macro missing.
\<close>

theorem C8_unimplemented_descriptor_witness:
  "run_stub (stress_cap_info False True) (example_args ''stub'' 0) fresh_worker
     = Some (EXIT_NOT_IMPLEMENTED, ''built without sys/capability.h'') \<and>
   run_stub (stress_context_info True False) (example_args ''stub'' 0) fresh_worker
     = Some (EXIT_NOT_IMPLEMENTED, ''built without ucontext.h'') \<and>
   run_stub (stress_watchdog_info False) (example_args ''stub'' 0) fresh_worker
     = Some (EXIT_NOT_IMPLEMENTED, ''built without linux/watchdog.h'') \<and>
   info_class (stress_watchdog_info False) = {CLASS_VM, CLASS_OS, CLASS_PATHOLOGICAL} \<and>
   info_help (stress_cap_info False True) = cap_help"
  using C8_unimplemented_descriptor [of False True "example_args ''stub'' 0" fresh_worker True False False]
  by (simp add: stress_cap_info_def stress_watchdog_info_def)

subsection \<open>C9: the scaled ceiling of the context stressor\<close>



subsection \<open>C10: the capability stressor always succeeds\<close>

text \<open>
  Claim C10: whatever \<^verbatim>\<open>capget\<close> and \<^verbatim>\<open>capset\<close> return, \<^verbatim>\<open>stress_cap\<close> returns
  \<^verbatim>\<open>EXIT_SUCCESS\<close>, and each probe adds exactly one to the counter: a call of
  \<^verbatim>\<open>stress_capgetset_pid\<close> counts once, and at the return the counter has grown by the
  number of probes.
\<close>

theorem C10_cap_always_success:
  "(stress_cap env args dirs w = Some (rc, g) \<longrightarrow>
      rc = EXIT_SUCCESS \<and> counter g = counter w + of_nat (length (probes g))) \<and>
   counter (snd (stress_capgetset_pid env args p do_set ex v)) = counter v + 1 \<and>
   probes (snd (stress_capgetset_pid env args p do_set ex v)) = probes v @ [(p, do_set, ex)]"
proof (intro conjI impI)
  assume a: "stress_cap env args dirs w = Some (rc, g)"
  show "rc = EXIT_SUCCESS" using a by (rule stress_cap_general)
  show "counter g = counter w + of_nat (length (probes g))" using a by (rule stress_cap_general)
next
  show "counter (snd (stress_capgetset_pid env args p do_set ex v)) = counter v + 1"
    "probes (snd (stress_capgetset_pid env args p do_set ex v)) = probes v @ [(p, do_set, ex)]"
    by (simp_all add: capgetset_fields)
qed

text \<open>
  A run with the ceiling 2 on a host where every checked call fails: three failures
  are printed, two probes are counted, the result is \<^verbatim>\<open>EXIT_SUCCESS\<close>.
\<close>

theorem C10_cap_always_success_witness:
  "\<exists>g. stress_cap failing_cap_env (example_args ''cap'' 2) [None] fresh_worker = Some (EXIT_SUCCESS, g) \<and>
      counter g = 2 \<and> probes g = [(1, False, True), (4242, True, True)] \<and>
      messages g = [(PR_FAIL, ''cap'', ''capget on pid %jd failed: errno=%d (%s)''),
                    (PR_FAIL, ''cap'', ''capget on pid %jd failed: errno=%d (%s)''),
                    (PR_FAIL, ''cap'', ''capget on pid %jd failed: errno=%d (%s)'')]"
proof -
  let ?g = "\<lparr>counter = 2, proc_states = [STRESS_STATE_RUN, STRESS_STATE_DEINIT],
      messages = [(PR_FAIL, ''cap'', ''capget on pid %jd failed: errno=%d (%s)''),
                  (PR_FAIL, ''cap'', ''capget on pid %jd failed: errno=%d (%s)''),
                  (PR_FAIL, ''cap'', ''capget on pid %jd failed: errno=%d (%s)'')],
      checks = 2, probes = [(1, False, True), (4242, True, True)]\<rparr>"
  have run: "stress_cap failing_cap_env (example_args ''cap'' 2) [None] fresh_worker
      = Some (EXIT_SUCCESS, ?g)"
    by (simp add: stress_cap_def cap_iteration_def stress_capgetset_pid_def Let_def
        failing_cap_env_def quiet_cap_env_def example_args_def fresh_worker_def keep_stressing_def
        checked_def inc_counter_def pr_fail_def cap_failed_def ESRCH_def stress_set_proc_state_def
        worker.defs cap_worker.defs)
  from C10_cap_always_success [where env = failing_cap_env and args = "example_args ''cap'' 2"
      and dirs = "[None]" and w = fresh_worker and rc = EXIT_SUCCESS and g = ?g, THEN conjunct1] run
  have "counter ?g = counter fresh_worker + of_nat (length (probes ?g))" by simp
  then show ?thesis using run by (simp add: fresh_worker_fields)
qed

end
